theory Spec2Isabelle
  imports Complex_Main "HOL-Library.AList"
begin

section \<open>Go integers\<close>

text \<open>
  Go's \<open>int\<close> (on the 64-bit platforms the servers target), \<open>int64\<close> and
  \<open>time.Duration\<close> are 64-bit two's complement integers whose arithmetic wraps around
  silently. They are modelled as \<open>int\<close> with the wrap-around written out.
\<close>

definition wrap64 :: "int \<Rightarrow> int" where
  "wrap64 x = (x + 2 ^ 63) mod 2 ^ 64 - 2 ^ 63"

text \<open>Go's integer quotient truncates towards zero.\<close>

definition quo :: "int \<Rightarrow> int \<Rightarrow> int" where
  "quo a b = sgn a * sgn b * (\<bar>a\<bar> div \<bar>b\<bar>)"

section \<open>Go's runtime: buffered channels and \<open>float64\<close>\<close>

text \<open>
  \<open>make(chan T, size)\<close> is the runtime's \<open>makechan\<close>: it panics with
  \<open>makechan: size out of range\<close> when \<open>size\<close> is negative or when the buffer of
  \<open>size\<close> elements overflows a machine word or exceeds \<open>maxAlloc - hchanSize\<close>, and it
  then allocates \<open>hchanSize\<close> bytes and the buffer; an allocation that the heap cannot
  provide ends the process with \<open>fatal error: runtime: out of memory\<close>. The two constants
  belong to the platform and the Go version (for instance \<open>2 ^ 48\<close> and 96 on
  linux/amd64, which puts the largest channel of durations near \<open>2 ^ 45\<close>), and the
  memory that is left belongs to the run: all three are parameters. The memory that the
  rest of the program takes is outside the model.
\<close>

record go_runtime =
  maxAlloc :: int
  hchanSize :: int
  heap_free :: int

definition linux_amd64 :: "int \<Rightarrow> go_runtime" where
  "linux_amd64 bytes = \<lparr>maxAlloc = 2 ^ 48, hchanSize = 96, heap_free = bytes\<rparr>"

text \<open>The machine of the examples: linux/amd64 with 16 GiB of memory left.\<close>

definition amd64_16GiB :: go_runtime where
  "amd64_16GiB = linux_amd64 (2 ^ 34)"

text \<open>How a run of the program ends early: the two panics and the fatal error.\<close>

datatype go_panic = DivideByZero | MakeChanSizeOutOfRange | OutOfMemory

text \<open>\<open>makechan rt elemsize size\<close> is \<open>None\<close> when the channel has been made.\<close>

definition makechan :: "go_runtime \<Rightarrow> int \<Rightarrow> int \<Rightarrow> go_panic option" where
  "makechan rt elemsize sz =
     (if sz < 0 \<or> 2 ^ 64 \<le> elemsize * sz \<or> maxAlloc rt - hchanSize rt < elemsize * sz
      then Some MakeChanSizeOutOfRange
      else if heap_free rt < hchanSize rt + elemsize * sz then Some OutOfMemory
      else None)"

text \<open>
  A \<open>float64\<close> is a real number that a double represents, an infinity or NaN. The doubles
  of the program are conversions of 64-bit integers and one quotient of two of them, so
  they are zero or of a magnitude between \<open>2 ^ - 63\<close> and \<open>2 ^ 63\<close>: normal numbers with a
  53-bit significand, rounded to nearest, ties to even. Negative zero does not arise.
\<close>

datatype float64 = Fin real | PInf | NInf | NaN

text \<open>The number of binary digits of a non-negative integer (\<open>bits.Len\<close>).\<close>

function bit_len :: "int \<Rightarrow> int" where
  "bit_len n = (if n \<le> 0 then 0 else bit_len (n div 2) + 1)"
  by pat_completeness auto
termination
  by (relation "measure nat") auto

declare bit_len.simps [simp del]

text \<open>The integer nearest to \<open>a / b\<close>, for \<open>0 < b\<close>, the even one when two are nearest.\<close>

definition round_even :: "int \<Rightarrow> int \<Rightarrow> int" where
  "round_even a b =
     (let q = a div b; r = a mod b in
      if 2 * r < b then q else if b < 2 * r then q + 1 else if even q then q else q + 1)"

text \<open>The exponent \<open>e\<close> with \<open>2 ^ e \<le> a / b < 2 ^ (e + 1)\<close>, for \<open>0 < a\<close> and \<open>0 < b\<close>.\<close>

definition floor_log2 :: "int \<Rightarrow> int \<Rightarrow> int" where
  "floor_log2 a b =
     (let d = bit_len a - bit_len b in
      if (if 0 \<le> d then b * 2 ^ nat d \<le> a else b \<le> a * 2 ^ nat (- d)) then d else d - 1)"

text \<open>
  The double nearest to \<open>a / b\<close>, for \<open>0 < b\<close>: the quotient is scaled to a significand
  between \<open>2 ^ 52\<close> and \<open>2 ^ 53\<close>, which is rounded to an integer.
\<close>

definition nearest_float64 :: "int \<Rightarrow> int \<Rightarrow> real" where
  "nearest_float64 a b =
     (if a = 0 then 0
      else
        let e = floor_log2 \<bar>a\<bar> b - 52 in
        if 0 \<le> e then real_of_int (round_even a (b * 2 ^ nat e)) * 2 ^ nat e
        else real_of_int (round_even (a * 2 ^ nat (- e)) b) / 2 ^ nat (- e))"

text \<open>
  The conversion \<open>float64(m)\<close> of a 64-bit integer: a double whose value is again an
  integer, \<open>m\<close> itself when it has at most 53 binary digits.
\<close>

definition int_to_float64 :: "int \<Rightarrow> int" where
  "int_to_float64 m =
     (let e = bit_len \<bar>m\<bar> - 53 in
      if 0 < e then round_even m (2 ^ nat e) * 2 ^ nat e else m)"

text \<open>
  The quotient \<open>x / y\<close> of two doubles with the integer values \<open>x\<close> and \<open>y\<close>: IEEE 754
  division, with NaN for \<open>0 / 0\<close> and an infinity for any other division by zero.
\<close>

definition float64_div :: "int \<Rightarrow> int \<Rightarrow> float64" where
  "float64_div x y =
     (if y = 0 then (if x = 0 then NaN else if 0 < x then PInf else NInf)
      else Fin (nearest_float64 (sgn y * x) \<bar>y\<bar>))"

section \<open>The load generator (benchmark test file)\<close>

text \<open>
  The HTTP server behind \<open>client.Get(url)\<close> is the environment. It is a parameter
  \<open>net url i j\<close>: the outcome of request \<open>j\<close> of goroutine \<open>i\<close>. Either
  \<open>client.Get\<close> returns an error (connection refused, the 30 second timeout expiring
  before the response headers have arrived), with its message; or it returns a response,
  and then \<open>io.ReadAll(resp.Body)\<close> may still fail (the connection breaking, or the same
  timeout expiring while the body is read). The source drops the error of \<open>io.ReadAll\<close>.
  \<open>Got body_error d\<close> carries that error, if any, and the duration \<open>time.Since(start)\<close>
  in nanoseconds that the goroutine measures once the body has been read and closed.
\<close>

datatype outcome = Failed string | Got "string option" int

text \<open>
  What one goroutine does that can be observed: the number of \<open>client.Get\<close> calls it
  made, the durations it sent on the \<open>latencies\<close> channel, and the messages it passed to
  \<open>b.Errorf\<close>.
\<close>

record worker =
  issued :: nat
  sent :: "int list"
  logged :: "string list"

definition worker0 :: worker where
  "worker0 = \<lparr>issued = 0, sent = [], logged = []\<rparr>"

text \<open>The inner loop \<open>for j := 0; j < requestsPerGoroutine; j++\<close> of \<open>measureAverageLatency\<close>.\<close>

function mal_worker :: "(int \<Rightarrow> outcome) \<Rightarrow> int \<Rightarrow> int \<Rightarrow> worker \<Rightarrow> worker" where
  "mal_worker get rpg j w =
     (if j < rpg then
        mal_worker get rpg (j + 1)
          (case get j of
             Got body_error d \<Rightarrow> w\<lparr>issued := Suc (issued w), sent := sent w @ [d]\<rparr>
           | Failed e \<Rightarrow> w\<lparr>issued := Suc (issued w)\<rparr>)
      else w)"
  by pat_completeness auto
termination
  by (relation "measure (\<lambda>(get, rpg, j, w). nat (rpg - j))") auto

text \<open>The inner loop of \<open>benchmarkServer\<close>: an error of \<open>client.Get\<close> is reported with \<open>b.Errorf\<close>.\<close>

function bench_worker :: "(int \<Rightarrow> outcome) \<Rightarrow> int \<Rightarrow> int \<Rightarrow> worker \<Rightarrow> worker" where
  "bench_worker get rpg j w =
     (if j < rpg then
        bench_worker get rpg (j + 1)
          (case get j of
             Failed e \<Rightarrow>
               w\<lparr>issued := Suc (issued w), logged := logged w @ [''Request failed: '' @ e]\<rparr>
           | Got body_error d \<Rightarrow> w\<lparr>issued := Suc (issued w)\<rparr>)
      else w)"
  by pat_completeness auto
termination
  by (relation "measure (\<lambda>(get, rpg, j, w). nat (rpg - j))") auto

text \<open>
  The outer loop \<open>for i := 0; i < concurrency; i++ { wg.Add(1); go func() {...}() }\<close>
  followed by \<open>wg.Wait()\<close>: one goroutine per \<open>i\<close>, each running its inner loop to the
  end. The goroutines share nothing but the channel and the wait group, so the result of
  each is the result of running it alone.
\<close>

function spawn :: "(int \<Rightarrow> worker) \<Rightarrow> int \<Rightarrow> int \<Rightarrow> worker list \<Rightarrow> worker list" where
  "spawn body concurrency i ws =
     (if i < concurrency then spawn body concurrency (i + 1) (ws @ [body i]) else ws)"
  by pat_completeness auto
termination
  by (relation "measure (\<lambda>(body, concurrency, i, ws). nat (concurrency - i))") auto

text \<open>
  The tail of \<open>measureAverageLatency\<close>: the loop over the closed channel that adds up
  \<open>totalLatency\<close> and \<open>count\<close>, the test \<open>count == 0\<close> with its \<open>return 0\<close>, and the
  quotient \<open>float64(totalLatency.Milliseconds()) / float64(count)\<close>.
  \<open>Duration.Milliseconds\<close> is the integer quotient by \<open>1000000\<close>.
\<close>

fun sum_loop :: "int list \<Rightarrow> int \<times> int \<Rightarrow> int \<times> int" where
  "sum_loop [] acc = acc"
| "sum_loop (latency # ls) (totalLatency, count) =
     sum_loop ls (wrap64 (totalLatency + latency), wrap64 (count + 1))"

definition Milliseconds :: "int \<Rightarrow> int" where
  "Milliseconds d = quo d 1000000"

definition summarize :: "int list \<Rightarrow> float64" where
  "summarize latencies =
     (case sum_loop latencies (0, 0) of
        (totalLatency, count) \<Rightarrow>
          if count = 0 then Fin 0
          else float64_div (int_to_float64 (Milliseconds totalLatency)) (int_to_float64 count))"

text \<open>
  \<open>measureAverageLatency\<close>. \<open>make(chan time.Duration, totalRequests)\<close> comes first (a
  \<open>time.Duration\<close> takes 8 bytes), then the integer division, which panics on a zero
  divisor. The channel receives the goroutines' sends in some interleaving; the sum and
  the count do not depend on it, and the model takes the sends goroutine by goroutine. The
  sends never exceed the capacity of the channel (lemma \<open>sends_fit_channel\<close> below), so
  none of them blocks.
\<close>

record mal_result =
  workers :: "worker list"
  average :: float64

definition measureAverageLatency ::
  "go_runtime \<Rightarrow> (string \<Rightarrow> int \<Rightarrow> int \<Rightarrow> outcome) \<Rightarrow> string \<Rightarrow> int \<Rightarrow> int \<Rightarrow>
   go_panic + mal_result" where
  "measureAverageLatency rt net url concurrency totalRequests =
     (case makechan rt 8 totalRequests of
        Some p \<Rightarrow> Inl p
      | None \<Rightarrow>
          if concurrency = 0 then Inl DivideByZero
          else
            let requestsPerGoroutine = wrap64 (quo totalRequests concurrency);
                ws = spawn (\<lambda>i. mal_worker (net url i) requestsPerGoroutine 0 worker0)
                       concurrency 0 []
            in Inr \<lparr>workers = ws, average = summarize (concat (map sent ws))\<rparr>)"

text \<open>
  \<open>benchmarkServer\<close>, with \<open>b.N\<close> as the parameter \<open>requests\<close>. It makes no channel.
  The two metrics it reports are quotients of floating point numbers by the wall-clock
  duration of the run and are not part of the model.
\<close>

definition benchmarkServer ::
  "(string \<Rightarrow> int \<Rightarrow> int \<Rightarrow> outcome) \<Rightarrow> int \<Rightarrow> string \<Rightarrow> int \<Rightarrow> go_panic + worker list" where
  "benchmarkServer net requests url concurrency =
     (if concurrency = 0 then Inl DivideByZero
      else
        let requestsPerGoroutine = wrap64 (quo requests concurrency)
        in Inr (spawn (\<lambda>i. bench_worker (net url i) requestsPerGoroutine 0 worker0)
                  concurrency 0 []))"

text \<open>
  Among the requests \<open>j, ..., n - 1\<close> of a goroutine: the durations of those for which
  \<open>client.Get\<close> returned a response (whether or not its body could then be read), and
  the messages of those for which it returned an error.
\<close>

definition responded :: "(int \<Rightarrow> outcome) \<Rightarrow> int \<Rightarrow> int \<Rightarrow> int list" where
  "responded get j n =
     concat (map (\<lambda>k. case get k of Got body_error d \<Rightarrow> [d] | Failed e \<Rightarrow> []) [j..n - 1])"

definition failures :: "(int \<Rightarrow> outcome) \<Rightarrow> int \<Rightarrow> int \<Rightarrow> string list" where
  "failures get j n =
     concat (map (\<lambda>k. case get k of Failed e \<Rightarrow> [e] | Got body_error d \<Rightarrow> []) [j..n - 1])"

section \<open>What the three servers share\<close>

text \<open>
  \<open>fmt.Sprintf("%d", n)\<close>: the decimal digits of \<open>n\<close>, after a minus sign when it is
  negative.
\<close>

definition digit_char :: "nat \<Rightarrow> char" where
  "digit_char d = ''0123456789'' ! d"

function show_nat :: "nat \<Rightarrow> string" where
  "show_nat n = (if n < 10 then [digit_char n] else show_nat (n div 10) @ [digit_char (n mod 10)])"
  by pat_completeness auto
termination
  by (relation "measure id") auto

declare show_nat.simps [simp del]

definition Sprintf_d :: "int \<Rightarrow> string" where
  "Sprintf_d n = (if n < 0 then CHR ''-'' # show_nat (nat (- n)) else show_nat (nat n))"

text \<open>\<open>fmt.Sprintf("request_%d", currentCounter)\<close> and \<open>fmt.Sprintf("Request %d", currentCounter)\<close>.\<close>

definition request_key :: "int \<Rightarrow> string" where
  "request_key currentCounter = ''request_'' @ Sprintf_d currentCounter"

definition request_name :: "int \<Rightarrow> string" where
  "request_name currentCounter = ''Request '' @ Sprintf_d currentCounter"

text \<open>The loop \<open>result := 0; for i := 0; i < 1000000; i++ { result += i }\<close>.\<close>

function cpu_loop :: "int \<Rightarrow> int \<Rightarrow> int" where
  "cpu_loop i result = (if i < 1000000 then cpu_loop (i + 1) (wrap64 (result + i)) else result)"
  by pat_completeness auto
termination
  by (relation "measure (\<lambda>(i, result). nat (1000000 - i))") auto

declare cpu_loop.simps [simp del]

text \<open>
  The clock is the environment: every step of a handler is scheduled together with the
  reading \<open>now\<close> that \<open>time.Now()\<close> would give it, in nanoseconds.
  \<open>time.Since(start)\<close> is the difference of two readings, which \<open>Time.Sub\<close> keeps
  within the range of a \<open>Duration\<close> by saturation, and \<open>Microseconds()\<close> is its integer
  quotient by 1000.
\<close>

definition sat64 :: "int \<Rightarrow> int" where
  "sat64 x = max (- (2 ^ 63)) (min (2 ^ 63 - 1) x)"

definition Since_Microseconds :: "int \<Rightarrow> int \<Rightarrow> int" where
  "Since_Microseconds now start = quo (sat64 (now - start)) 1000"

text \<open>The JSON object written to the client: \<open>method\<close> (here \<open>method_name\<close>), \<open>counter\<close>, \<open>result\<close>, \<open>duration\<close>.\<close>

record response =
  method_name :: string
  counter :: int
  result :: int
  duration :: int

definition response0 :: response where
  "response0 = \<lparr>method_name = [], counter = 0, result = 0, duration = 0\<rparr>"

text \<open>The struct of the two servers that store records.\<close>

record DataStruct =
  Identifier :: string
  Name :: string
  IsActive :: bool
  Counter :: int
  LastModified :: int

text \<open>
  A scheduling event is a goroutine (the index of a request) and the clock reading of the
  step it takes.
\<close>

type_synonym event = "nat \<times> int"

section \<open>The server with the deferred unlock (bad\_server.go)\<close>

text \<open>
  Each request is a goroutine running \<open>BadHandler\<close>. A goroutine is at a program point,
  named after the statement it executes next; a step executes that statement. The steps of
  the goroutines interleave in any order (the schedule); \<open>r.mu.Lock()\<close> can only be taken
  when the mutex is free, and a blocked goroutine's step leaves the state as it is.
  The mutex records which goroutine locked it. The deferred \<open>r.mu.Unlock()\<close> runs when the
  function returns, after the last statement.
\<close>

datatype bad_pc =
    B_Start      \<comment> \<open>\<open>start := time.Now()\<close>\<close>
  | B_Lock       \<comment> \<open>\<open>r.mu.Lock(); defer r.mu.Unlock()\<close>\<close>
  | B_Incr       \<comment> \<open>\<open>r.counter++; currentCounter := r.counter\<close>\<close>
  | B_Copy       \<comment> \<open>\<open>dataCopy := make(...)\<close> and the \<open>range\<close> loop\<close>
  | B_Sleep      \<comment> \<open>\<open>time.Sleep(10 * time.Millisecond)\<close>\<close>
  | B_Cpu        \<comment> \<open>the loop computing \<open>result\<close>\<close>
  | B_Write      \<comment> \<open>\<open>r.data[fmt.Sprintf("request_%d", currentCounter)] = result\<close>\<close>
  | B_Response   \<comment> \<open>\<open>response := map[string]interface{}{...}\<close>\<close>
  | B_Encode     \<comment> \<open>\<open>w.Header().Set(...); json.NewEncoder(w).Encode(response)\<close>\<close>
  | B_Unlock     \<comment> \<open>the deferred \<open>r.mu.Unlock()\<close>\<close>
  | B_Done

record bad_thread =
  b_pc :: bad_pc
  b_start :: int
  b_currentCounter :: int
  b_dataCopy :: "(string \<times> int) list"
  b_result :: int
  b_response :: response

text \<open>
  The \<open>Repository\<close> (mutex, counter, map), the response bodies written so far, whether
  the runtime has stopped the process (unlock of an unlocked mutex), and the goroutines.
  A Go map is an association list with distinct keys.
\<close>

record bad_sys =
  b_mu :: "nat option"
  b_counter :: int
  b_data :: "(string \<times> int) list"
  b_out :: "(nat \<times> response) list"
  b_fatal :: bool
  b_threads :: "bad_thread list"

definition bad_thread0 :: bad_thread where
  "bad_thread0 =
     \<lparr>b_pc = B_Start, b_start = 0, b_currentCounter = 0, b_dataCopy = [], b_result = 0,
      b_response = response0\<rparr>"

text \<open>\<open>NewRepository()\<close> and \<open>n\<close> requests that have arrived.\<close>

definition bad_init :: "nat \<Rightarrow> bad_sys" where
  "bad_init n =
     \<lparr>b_mu = None, b_counter = 0, b_data = [], b_out = [], b_fatal = False,
      b_threads = replicate n bad_thread0\<rparr>"

text \<open>\<open>for k, v := range r.data { dataCopy[k] = v }\<close>\<close>

fun bad_copy :: "(string \<times> int) list \<Rightarrow> (string \<times> int) list \<Rightarrow> (string \<times> int) list" where
  "bad_copy [] dataCopy = dataCopy"
| "bad_copy ((k, v) # kvs) dataCopy = bad_copy kvs (AList.update k v dataCopy)"

definition bad_set :: "nat \<Rightarrow> bad_thread \<Rightarrow> bad_sys \<Rightarrow> bad_sys" where
  "bad_set t th s = s\<lparr>b_threads := (b_threads s)[t := th]\<rparr>"

definition BadHandler :: "nat \<Rightarrow> int \<Rightarrow> bad_thread \<Rightarrow> bad_sys \<Rightarrow> bad_sys" where
  "BadHandler t now th s =
     (case b_pc th of
        B_Start \<Rightarrow> bad_set t (th\<lparr>b_start := now, b_pc := B_Lock\<rparr>) s
      | B_Lock \<Rightarrow>
          (case b_mu s of
             None \<Rightarrow> bad_set t (th\<lparr>b_pc := B_Incr\<rparr>) (s\<lparr>b_mu := Some t\<rparr>)
           | Some holder \<Rightarrow> s)
      | B_Incr \<Rightarrow>
          bad_set t (th\<lparr>b_currentCounter := wrap64 (b_counter s + 1), b_pc := B_Copy\<rparr>)
            (s\<lparr>b_counter := wrap64 (b_counter s + 1)\<rparr>)
      | B_Copy \<Rightarrow> bad_set t (th\<lparr>b_dataCopy := bad_copy (b_data s) [], b_pc := B_Sleep\<rparr>) s
      | B_Sleep \<Rightarrow> bad_set t (th\<lparr>b_pc := B_Cpu\<rparr>) s
      | B_Cpu \<Rightarrow> bad_set t (th\<lparr>b_result := cpu_loop 0 0, b_pc := B_Write\<rparr>) s
      | B_Write \<Rightarrow>
          bad_set t (th\<lparr>b_pc := B_Response\<rparr>)
            (s\<lparr>b_data := AList.update (request_key (b_currentCounter th)) (b_result th) (b_data s)\<rparr>)
      | B_Response \<Rightarrow>
          bad_set t
            (th\<lparr>b_response :=
                  \<lparr>method_name = ''bad_defer'', counter = b_currentCounter th, result = b_result th,
                   duration = Since_Microseconds now (b_start th)\<rparr>,
                b_pc := B_Encode\<rparr>) s
      | B_Encode \<Rightarrow>
          bad_set t (th\<lparr>b_pc := B_Unlock\<rparr>) (s\<lparr>b_out := b_out s @ [(t, b_response th)]\<rparr>)
      | B_Unlock \<Rightarrow>
          (case b_mu s of
             None \<Rightarrow> s\<lparr>b_fatal := True\<rparr>
           | Some holder \<Rightarrow> bad_set t (th\<lparr>b_pc := B_Done\<rparr>) (s\<lparr>b_mu := None\<rparr>))
      | B_Done \<Rightarrow> s)"

definition bad_step :: "event \<Rightarrow> bad_sys \<Rightarrow> bad_sys" where
  "bad_step e s =
     (case e of (t, now) \<Rightarrow>
        if b_fatal s \<or> \<not> t < length (b_threads s) then s
        else BadHandler t now (b_threads s ! t) s)"

fun bad_run :: "event list \<Rightarrow> bad_sys \<Rightarrow> bad_sys" where
  "bad_run [] s = s"
| "bad_run (e # es) s = bad_run es (bad_step e s)"

text \<open>\<open>StatsHandler\<close> reads both fields under the lock: \<open>total_requests\<close> and \<open>data_size\<close>.\<close>

definition bad_stats :: "bad_sys \<Rightarrow> int \<times> int" where
  "bad_stats s = (b_counter s, int (length (b_data s)))"

text \<open>The program points at which a goroutine is between its \<open>Lock\<close> and its \<open>Unlock\<close>.\<close>

definition bad_in_body :: "bad_pc \<Rightarrow> bool" where
  "bad_in_body p =
     (p = B_Incr \<or> p = B_Copy \<or> p = B_Sleep \<or> p = B_Cpu \<or> p = B_Write \<or> p = B_Response \<or>
      p = B_Encode \<or> p = B_Unlock)"


text \<open>The ids handed out during a run, in the order of the steps that hand them out.\<close>

fun bad_ids :: "event list \<Rightarrow> bad_sys \<Rightarrow> int list" where
  "bad_ids [] s = []"
| "bad_ids (e # es) s =
     (if \<not> b_fatal s \<and> fst e < length (b_threads s) \<and> b_pc (b_threads s ! fst e) = B_Incr
      then [b_currentCounter (b_threads (bad_step e s) ! fst e)] else []) @
     bad_ids es (bad_step e s)"
section \<open>The server with two short critical sections (good\_server.go)\<close>

text \<open>
  The map of this server holds pointers, so the objects live in an explicit store: a
  \<open>*DataStruct\<close> is an index into the list of allocated structs, a Go map value (a
  reference) is an index into the list of allocated maps, and an allocation appends.
  Nothing is ever freed while it is reachable, so nothing is removed.
\<close>

datatype good_pc =
    G_Start      \<comment> \<open>\<open>start := time.Now()\<close>\<close>
  | G_Lock1      \<comment> \<open>\<open>r.mu.Lock()\<close>\<close>
  | G_Incr       \<comment> \<open>\<open>r.counter++; currentCounter := r.counter\<close>\<close>
  | G_Copy       \<comment> \<open>\<open>dataCopy := make(...)\<close> and the \<open>range\<close> loop\<close>
  | G_Unlock1    \<comment> \<open>\<open>r.mu.Unlock()\<close>\<close>
  | G_Sleep      \<comment> \<open>\<open>time.Sleep(10 * time.Millisecond)\<close>\<close>
  | G_Cpu        \<comment> \<open>the loop computing \<open>result\<close>\<close>
  | G_Key        \<comment> \<open>\<open>key := fmt.Sprintf("request_%d", currentCounter)\<close>\<close>
  | G_Lock2      \<comment> \<open>\<open>r.mu.Lock()\<close>\<close>
  | G_Store      \<comment> \<open>\<open>r.data[key] = &DataStruct{...}\<close>\<close>
  | G_Unlock2    \<comment> \<open>\<open>r.mu.Unlock()\<close>\<close>
  | G_Response   \<comment> \<open>\<open>response := map[string]interface{}{...}\<close>\<close>
  | G_Encode     \<comment> \<open>\<open>w.Header().Set(...); json.NewEncoder(w).Encode(response)\<close>\<close>
  | G_Done

record good_thread =
  g_pc :: good_pc
  g_start :: int
  g_currentCounter :: int
  g_dataCopy :: nat
  g_result :: int
  g_key :: string
  g_response :: response

record good_sys =
  g_mu :: "nat option"
  g_counter :: int
  g_data :: nat
  g_structs :: "DataStruct list"
  g_maps :: "(string \<times> nat) list list"
  g_out :: "(nat \<times> response) list"
  g_fatal :: bool
  g_threads :: "good_thread list"

definition good_thread0 :: good_thread where
  "good_thread0 =
     \<lparr>g_pc = G_Start, g_start = 0, g_currentCounter = 0, g_dataCopy = 0, g_result = 0,
      g_key = [], g_response = response0\<rparr>"

text \<open>\<open>NewRepository()\<close> makes the repository's map, the first object of the store.\<close>

definition good_init :: "nat \<Rightarrow> good_sys" where
  "good_init n =
     \<lparr>g_mu = None, g_counter = 0, g_data = 0, g_structs = [], g_maps = [[]], g_out = [],
      g_fatal = False, g_threads = replicate n good_thread0\<rparr>"

text \<open>
  \<open>for k, v := range r.data { dataCopy[k] = &DataStruct{Identifier: v.Identifier, ...} }\<close>:
  every iteration allocates a struct, fills it from the fields of \<open>*v\<close> and stores its
  address in the copy.
\<close>

fun good_copy ::
  "(string \<times> nat) list \<Rightarrow> DataStruct list \<Rightarrow> (string \<times> nat) list \<Rightarrow>
   DataStruct list \<times> (string \<times> nat) list" where
  "good_copy [] structs dataCopy = (structs, dataCopy)"
| "good_copy ((k, v) # kvs) structs dataCopy =
     good_copy kvs
       (structs @
        [\<lparr>Identifier = Identifier (structs ! v), Name = Name (structs ! v),
          IsActive = IsActive (structs ! v), Counter = Counter (structs ! v),
          LastModified = LastModified (structs ! v)\<rparr>])
       (AList.update k (length structs) dataCopy)"

definition good_set :: "nat \<Rightarrow> good_thread \<Rightarrow> good_sys \<Rightarrow> good_sys" where
  "good_set t th s = s\<lparr>g_threads := (g_threads s)[t := th]\<rparr>"

definition GoodHandler :: "nat \<Rightarrow> int \<Rightarrow> good_thread \<Rightarrow> good_sys \<Rightarrow> good_sys" where
  "GoodHandler t now th s =
     (case g_pc th of
        G_Start \<Rightarrow> good_set t (th\<lparr>g_start := now, g_pc := G_Lock1\<rparr>) s
      | G_Lock1 \<Rightarrow>
          (case g_mu s of
             None \<Rightarrow> good_set t (th\<lparr>g_pc := G_Incr\<rparr>) (s\<lparr>g_mu := Some t\<rparr>)
           | Some holder \<Rightarrow> s)
      | G_Incr \<Rightarrow>
          good_set t (th\<lparr>g_currentCounter := wrap64 (g_counter s + 1), g_pc := G_Copy\<rparr>)
            (s\<lparr>g_counter := wrap64 (g_counter s + 1)\<rparr>)
      | G_Copy \<Rightarrow>
          (case good_copy (g_maps s ! g_data s) (g_structs s) [] of
             (structs, dataCopy) \<Rightarrow>
               good_set t (th\<lparr>g_dataCopy := length (g_maps s), g_pc := G_Unlock1\<rparr>)
                 (s\<lparr>g_structs := structs, g_maps := g_maps s @ [dataCopy]\<rparr>))
      | G_Unlock1 \<Rightarrow>
          (case g_mu s of
             None \<Rightarrow> s\<lparr>g_fatal := True\<rparr>
           | Some holder \<Rightarrow> good_set t (th\<lparr>g_pc := G_Sleep\<rparr>) (s\<lparr>g_mu := None\<rparr>))
      | G_Sleep \<Rightarrow> good_set t (th\<lparr>g_pc := G_Cpu\<rparr>) s
      | G_Cpu \<Rightarrow> good_set t (th\<lparr>g_result := cpu_loop 0 0, g_pc := G_Key\<rparr>) s
      | G_Key \<Rightarrow>
          good_set t (th\<lparr>g_key := request_key (g_currentCounter th), g_pc := G_Lock2\<rparr>) s
      | G_Lock2 \<Rightarrow>
          (case g_mu s of
             None \<Rightarrow> good_set t (th\<lparr>g_pc := G_Store\<rparr>) (s\<lparr>g_mu := Some t\<rparr>)
           | Some holder \<Rightarrow> s)
      | G_Store \<Rightarrow>
          good_set t (th\<lparr>g_pc := G_Unlock2\<rparr>)
            (s\<lparr>g_structs :=
                 g_structs s @
                 [\<lparr>Identifier = g_key th, Name = request_name (g_currentCounter th),
                   IsActive = True, Counter = g_result th, LastModified = now\<rparr>],
               g_maps :=
                 (g_maps s)[g_data s :=
                   AList.update (g_key th) (length (g_structs s)) (g_maps s ! g_data s)]\<rparr>)
      | G_Unlock2 \<Rightarrow>
          (case g_mu s of
             None \<Rightarrow> s\<lparr>g_fatal := True\<rparr>
           | Some holder \<Rightarrow> good_set t (th\<lparr>g_pc := G_Response\<rparr>) (s\<lparr>g_mu := None\<rparr>))
      | G_Response \<Rightarrow>
          good_set t
            (th\<lparr>g_response :=
                  \<lparr>method_name = ''good_no_defer'', counter = g_currentCounter th,
                   result = g_result th, duration = Since_Microseconds now (g_start th)\<rparr>,
                g_pc := G_Encode\<rparr>) s
      | G_Encode \<Rightarrow>
          good_set t (th\<lparr>g_pc := G_Done\<rparr>) (s\<lparr>g_out := g_out s @ [(t, g_response th)]\<rparr>)
      | G_Done \<Rightarrow> s)"

definition good_step :: "event \<Rightarrow> good_sys \<Rightarrow> good_sys" where
  "good_step e s =
     (case e of (t, now) \<Rightarrow>
        if g_fatal s \<or> \<not> t < length (g_threads s) then s
        else GoodHandler t now (g_threads s ! t) s)"

fun good_run :: "event list \<Rightarrow> good_sys \<Rightarrow> good_sys" where
  "good_run [] s = s"
| "good_run (e # es) s = good_run es (good_step e s)"

text \<open>\<open>StatsHandler\<close>: \<open>total_requests\<close> and \<open>data_size\<close>, read under the lock.\<close>

definition good_stats :: "good_sys \<Rightarrow> int \<times> int" where
  "good_stats s = (g_counter s, int (length (g_maps s ! g_data s)))"

text \<open>The ids handed out during a run, in the order of the steps that hand them out.\<close>

fun good_ids :: "event list \<Rightarrow> good_sys \<Rightarrow> int list" where
  "good_ids [] s = []"
| "good_ids (e # es) s =
     (if \<not> g_fatal s \<and> fst e < length (g_threads s) \<and> g_pc (g_threads s ! fst e) = G_Incr
      then [g_currentCounter (g_threads (good_step e s) ! fst e)] else []) @
     good_ids es (good_step e s)"

text \<open>What a snapshot map shows: its keys with the contents of the structs they point to.\<close>

definition good_view :: "good_sys \<Rightarrow> nat \<Rightarrow> (string \<times> DataStruct) list" where
  "good_view s d = map (\<lambda>(k, a). (k, g_structs s ! a)) (g_maps s ! d)"

text \<open>
  Program points: inside one of the two critical sections; holding a finished snapshot;
  after the record has been stored; the statement that writes to the client.
\<close>

definition good_critical :: "good_pc \<Rightarrow> bool" where
  "good_critical p = (p = G_Incr \<or> p = G_Copy \<or> p = G_Unlock1 \<or> p = G_Store \<or> p = G_Unlock2)"

definition good_has_snapshot :: "good_pc \<Rightarrow> bool" where
  "good_has_snapshot p =
     (p \<noteq> G_Start \<and> p \<noteq> G_Lock1 \<and> p \<noteq> G_Incr \<and> p \<noteq> G_Copy)"

definition good_stored :: "good_pc \<Rightarrow> bool" where
  "good_stored p = (p = G_Unlock2 \<or> p = G_Response \<or> p = G_Encode \<or> p = G_Done)"

definition good_io :: "good_pc \<Rightarrow> bool" where
  "good_io p = (p = G_Encode)"

section \<open>The server with sync.Map and an atomic counter\<close>

text \<open>
  There is no mutex in this \<open>Repository\<close>. \<open>atomic.AddInt64\<close>, \<open>sync.Map.Store\<close> and
  the load of one entry are single steps. \<open>sync.Map.Range\<close> is not: it fixes the keys
  it will visit when it starts, then visits them one by one, each visit loading the value
  the key has at that moment and calling the function on it, while other goroutines take
  steps in between. Only \<open>*DataStruct\<close> values are ever stored, so the type assertion in
  the callback succeeds; the values of the map are modelled as addresses of structs.
\<close>

datatype sync_pc =
    S_Start      \<comment> \<open>\<open>start := time.Now()\<close>\<close>
  | S_Add        \<comment> \<open>\<open>currentCounter := atomic.AddInt64(&r.counter, 1)\<close>\<close>
  | S_Make       \<comment> \<open>\<open>dataCopy := make(map[string]*DataStruct)\<close>\<close>
  | S_Range      \<comment> \<open>\<open>r.data.Range(...)\<close> starts\<close>
  | S_Visit      \<comment> \<open>\<open>Range\<close> visits the next key, or returns\<close>
  | S_Sleep      \<comment> \<open>\<open>time.Sleep(10 * time.Millisecond)\<close>\<close>
  | S_Cpu        \<comment> \<open>the loop computing \<open>result\<close>\<close>
  | S_Key        \<comment> \<open>\<open>key := fmt.Sprintf("request_%d", currentCounter)\<close>\<close>
  | S_Store      \<comment> \<open>\<open>r.data.Store(key, &DataStruct{...})\<close>\<close>
  | S_Response   \<comment> \<open>\<open>response := map[string]interface{}{...}\<close>\<close>
  | S_Encode     \<comment> \<open>\<open>w.Header().Set(...); json.NewEncoder(w).Encode(response)\<close>\<close>
  | S_Done

record sync_thread =
  s_pc :: sync_pc
  s_start :: int
  s_currentCounter :: int
  s_dataCopy :: nat
  s_todo :: "string list"
  s_result :: int
  s_key :: string
  s_response :: response

record sync_sys =
  s_counter :: int
  s_data :: "(string \<times> nat) list"
  s_structs :: "DataStruct list"
  s_maps :: "(string \<times> nat) list list"
  s_out :: "(nat \<times> response) list"
  s_threads :: "sync_thread list"

definition sync_thread0 :: sync_thread where
  "sync_thread0 =
     \<lparr>s_pc = S_Start, s_start = 0, s_currentCounter = 0, s_dataCopy = 0, s_todo = [],
      s_result = 0, s_key = [], s_response = response0\<rparr>"

definition sync_init :: "nat \<Rightarrow> sync_sys" where
  "sync_init n =
     \<lparr>s_counter = 0, s_data = [], s_structs = [], s_maps = [], s_out = [],
      s_threads = replicate n sync_thread0\<rparr>"

definition sync_set :: "nat \<Rightarrow> sync_thread \<Rightarrow> sync_sys \<Rightarrow> sync_sys" where
  "sync_set t th s = s\<lparr>s_threads := (s_threads s)[t := th]\<rparr>"

definition SyncMapHandler :: "nat \<Rightarrow> int \<Rightarrow> sync_thread \<Rightarrow> sync_sys \<Rightarrow> sync_sys" where
  "SyncMapHandler t now th s =
     (case s_pc th of
        S_Start \<Rightarrow> sync_set t (th\<lparr>s_start := now, s_pc := S_Add\<rparr>) s
      | S_Add \<Rightarrow>
          sync_set t (th\<lparr>s_currentCounter := wrap64 (s_counter s + 1), s_pc := S_Make\<rparr>)
            (s\<lparr>s_counter := wrap64 (s_counter s + 1)\<rparr>)
      | S_Make \<Rightarrow>
          sync_set t (th\<lparr>s_dataCopy := length (s_maps s), s_pc := S_Range\<rparr>)
            (s\<lparr>s_maps := s_maps s @ [[]]\<rparr>)
      | S_Range \<Rightarrow> sync_set t (th\<lparr>s_todo := map fst (s_data s), s_pc := S_Visit\<rparr>) s
      | S_Visit \<Rightarrow>
          (case s_todo th of
             [] \<Rightarrow> sync_set t (th\<lparr>s_pc := S_Sleep\<rparr>) s
           | k # ks \<Rightarrow>
               (case map_of (s_data s) k of
                  None \<Rightarrow> sync_set t (th\<lparr>s_todo := ks\<rparr>) s
                | Some ds \<Rightarrow>
                    sync_set t (th\<lparr>s_todo := ks\<rparr>)
                      (s\<lparr>s_structs :=
                           s_structs s @
                           [\<lparr>Identifier = Identifier (s_structs s ! ds),
                             Name = Name (s_structs s ! ds),
                             IsActive = IsActive (s_structs s ! ds),
                             Counter = Counter (s_structs s ! ds),
                             LastModified = LastModified (s_structs s ! ds)\<rparr>],
                         s_maps :=
                           (s_maps s)[s_dataCopy th :=
                             AList.update k (length (s_structs s)) (s_maps s ! s_dataCopy th)]\<rparr>)))
      | S_Sleep \<Rightarrow> sync_set t (th\<lparr>s_pc := S_Cpu\<rparr>) s
      | S_Cpu \<Rightarrow> sync_set t (th\<lparr>s_result := cpu_loop 0 0, s_pc := S_Key\<rparr>) s
      | S_Key \<Rightarrow>
          sync_set t (th\<lparr>s_key := request_key (s_currentCounter th), s_pc := S_Store\<rparr>) s
      | S_Store \<Rightarrow>
          sync_set t (th\<lparr>s_pc := S_Response\<rparr>)
            (s\<lparr>s_structs :=
                 s_structs s @
                 [\<lparr>Identifier = s_key th, Name = request_name (s_currentCounter th),
                   IsActive = True, Counter = s_result th, LastModified = now\<rparr>],
               s_data := AList.update (s_key th) (length (s_structs s)) (s_data s)\<rparr>)
      | S_Response \<Rightarrow>
          sync_set t
            (th\<lparr>s_response :=
                  \<lparr>method_name = ''sync_map'', counter = s_currentCounter th,
                   result = s_result th, duration = Since_Microseconds now (s_start th)\<rparr>,
                s_pc := S_Encode\<rparr>) s
      | S_Encode \<Rightarrow>
          sync_set t (th\<lparr>s_pc := S_Done\<rparr>) (s\<lparr>s_out := s_out s @ [(t, s_response th)]\<rparr>)
      | S_Done \<Rightarrow> s)"

definition sync_step :: "event \<Rightarrow> sync_sys \<Rightarrow> sync_sys" where
  "sync_step e s =
     (case e of (t, now) \<Rightarrow>
        if \<not> t < length (s_threads s) then s
        else SyncMapHandler t now (s_threads s ! t) s)"

fun sync_run :: "event list \<Rightarrow> sync_sys \<Rightarrow> sync_sys" where
  "sync_run [] s = s"
| "sync_run (e # es) s = sync_run es (sync_step e s)"

text \<open>
  \<open>StatsHandler\<close>: the atomic load of the counter and the number of keys its \<open>Range\<close>
  visits.
\<close>

definition sync_stats :: "sync_sys \<Rightarrow> int \<times> int" where
  "sync_stats s = (s_counter s, int (length (s_data s)))"

fun sync_ids :: "event list \<Rightarrow> sync_sys \<Rightarrow> int list" where
  "sync_ids [] s = []"
| "sync_ids (e # es) s =
     (if fst e < length (s_threads s) \<and> s_pc (s_threads s ! fst e) = S_Add
      then [s_currentCounter (s_threads (sync_step e s) ! fst e)] else []) @
     sync_ids es (sync_step e s)"

definition sync_view :: "sync_sys \<Rightarrow> nat \<Rightarrow> (string \<times> DataStruct) list" where
  "sync_view s d = map (\<lambda>(k, a). (k, s_structs s ! a)) (s_maps s ! d)"

definition sync_has_snapshot :: "sync_pc \<Rightarrow> bool" where
  "sync_has_snapshot p =
     (p \<noteq> S_Start \<and> p \<noteq> S_Add \<and> p \<noteq> S_Make \<and> p \<noteq> S_Range \<and> p \<noteq> S_Visit)"

definition sync_stored :: "sync_pc \<Rightarrow> bool" where
  "sync_stored p = (p = S_Response \<or> p = S_Encode \<or> p = S_Done)"

section \<open>Invariants\<close>

text \<open>
  The lock discipline of \<open>BadHandler\<close>: the process has not been stopped, and a goroutine
  is between its \<open>Lock\<close> and its \<open>Unlock\<close> exactly when it is the one that holds the
  mutex.
\<close>

definition bad_inv :: "bad_sys \<Rightarrow> bool" where
  "bad_inv s =
     (\<not> b_fatal s \<and>
      (\<forall>t < length (b_threads s). (b_mu s = Some t) = bad_in_body (b_pc (b_threads s ! t))))"

text \<open>
  The invariants of \<open>GoodHandler\<close>. The lock discipline: a goroutine is inside one of
  its two critical sections exactly when it holds the mutex. The store: the repository's
  map is the first map, every address in a map is allocated, the structs of a snapshot map
  are not those of the repository's map, and a goroutine that has taken its snapshot holds
  the address of a map other than the repository's. The records: a goroutine past the CPU
  loop holds its result, a goroutine past \<open>Sprintf\<close> holds the key of its id, and every
  record of the repository's map is well formed (\<open>record_ok\<close>). The keys: the keys of the
  repository's map are distinct and are the keys of the goroutines that have stored.
  \<open>good_extends\<close> relates a state to a later one: the store has grown, every map but the
  repository's is as it was, and the repository's map has kept its keys.
\<close>

definition good_lock_inv :: "good_sys \<Rightarrow> bool" where
  "good_lock_inv s =
     (\<not> g_fatal s \<and>
      (\<forall>t < length (g_threads s). (g_mu s = Some t) = good_critical (g_pc (g_threads s ! t))))"

definition good_heap_inv :: "good_sys \<Rightarrow> bool" where
  "good_heap_inv s =
     (g_data s = 0 \<and> g_maps s \<noteq> [] \<and>
      (\<forall>d < length (g_maps s). \<forall>p \<in> set (g_maps s ! d). snd p < length (g_structs s)) \<and>
      (\<forall>d < length (g_maps s). 0 < d \<longrightarrow>
         (\<forall>p \<in> set (g_maps s ! d). \<forall>q \<in> set (g_maps s ! 0). snd p \<noteq> snd q)) \<and>
      (\<forall>t < length (g_threads s). good_has_snapshot (g_pc (g_threads s ! t)) \<longrightarrow>
         0 < g_dataCopy (g_threads s ! t) \<and> g_dataCopy (g_threads s ! t) < length (g_maps s)))"

definition record_ok :: "string \<Rightarrow> DataStruct \<Rightarrow> bool" where
  "record_ok k r =
     (\<exists>c. k = request_key c \<and> Identifier r = k \<and> Name r = request_name c \<and> IsActive r \<and>
          Counter r = 499999500000)"

definition good_has_result :: "good_pc \<Rightarrow> bool" where
  "good_has_result p =
     (p = G_Key \<or> p = G_Lock2 \<or> p = G_Store \<or> p = G_Unlock2 \<or> p = G_Response \<or>
      p = G_Encode \<or> p = G_Done)"

definition good_has_key :: "good_pc \<Rightarrow> bool" where
  "good_has_key p =
     (p = G_Lock2 \<or> p = G_Store \<or> p = G_Unlock2 \<or> p = G_Response \<or> p = G_Encode \<or> p = G_Done)"

definition good_local :: "good_thread \<Rightarrow> bool" where
  "good_local th =
     ((good_has_result (g_pc th) \<longrightarrow> g_result th = 499999500000) \<and>
      (good_has_key (g_pc th) \<longrightarrow> g_key th = request_key (g_currentCounter th)))"

definition good_rec_inv :: "good_sys \<Rightarrow> bool" where
  "good_rec_inv s =
     ((\<forall>t < length (g_threads s). good_local (g_threads s ! t)) \<and>
      (\<forall>p \<in> set (g_maps s ! g_data s). record_ok (fst p) (g_structs s ! snd p)))"

definition good_inv :: "good_sys \<Rightarrow> bool" where
  "good_inv s = (good_lock_inv s \<and> good_heap_inv s \<and> good_rec_inv s)"

definition good_extends :: "good_sys \<Rightarrow> good_sys \<Rightarrow> bool" where
  "good_extends s s' =
     ((\<exists>ys. g_structs s' = g_structs s @ ys) \<and> length (g_maps s) \<le> length (g_maps s') \<and>
      g_data s' = g_data s \<and>
      (\<forall>d < length (g_maps s). d \<noteq> g_data s \<longrightarrow> g_maps s' ! d = g_maps s ! d) \<and>
      fst ` set (g_maps s ! g_data s) \<subseteq> fst ` set (g_maps s' ! g_data s'))"

definition good_keys_inv :: "good_sys \<Rightarrow> bool" where
  "good_keys_inv s =
     (distinct (map fst (g_maps s ! g_data s)) \<and>
      (\<forall>k. (k \<in> fst ` set (g_maps s ! g_data s)) =
           (\<exists>t < length (g_threads s). good_stored (g_pc (g_threads s ! t)) \<and>
              request_key (g_currentCounter (g_threads s ! t)) = k)))"

definition good_keyed :: "good_thread \<Rightarrow> string \<Rightarrow> bool" where
  "good_keyed th k = (good_stored (g_pc th) \<and> request_key (g_currentCounter th) = k)"

definition good_inv2 :: "good_sys \<Rightarrow> bool" where
  "good_inv2 s = (good_inv s \<and> good_keys_inv s)"

text \<open>
  The invariants of \<open>SyncMapHandler\<close>, as for \<open>GoodHandler\<close> but without a mutex: every
  address in \<open>r.data\<close> and in the handlers' maps is allocated, no struct of a handler's map
  is a struct of \<open>r.data\<close>, and two goroutines never hold the same map. \<open>sync_keeps d\<close>
  relates a state to a later one in which the store has grown and the map at \<open>d\<close> is as it
  was.
\<close>

definition sync_has_map :: "sync_pc \<Rightarrow> bool" where
  "sync_has_map p = (p \<noteq> S_Start \<and> p \<noteq> S_Add \<and> p \<noteq> S_Make)"

definition sync_heap_inv :: "sync_sys \<Rightarrow> bool" where
  "sync_heap_inv s =
     ((\<forall>p \<in> set (s_data s). snd p < length (s_structs s)) \<and>
      (\<forall>d < length (s_maps s). \<forall>p \<in> set (s_maps s ! d). snd p < length (s_structs s)) \<and>
      (\<forall>d < length (s_maps s). \<forall>p \<in> set (s_maps s ! d). \<forall>q \<in> set (s_data s). snd p \<noteq> snd q) \<and>
      (\<forall>t < length (s_threads s). sync_has_map (s_pc (s_threads s ! t)) \<longrightarrow>
         s_dataCopy (s_threads s ! t) < length (s_maps s)) \<and>
      (\<forall>t < length (s_threads s). \<forall>u < length (s_threads s).
         sync_has_map (s_pc (s_threads s ! t)) \<and> sync_has_map (s_pc (s_threads s ! u)) \<and>
         s_dataCopy (s_threads s ! t) = s_dataCopy (s_threads s ! u) \<longrightarrow> t = u))"

definition sync_has_result :: "sync_pc \<Rightarrow> bool" where
  "sync_has_result p = (p = S_Key \<or> p = S_Store \<or> p = S_Response \<or> p = S_Encode \<or> p = S_Done)"

definition sync_has_key :: "sync_pc \<Rightarrow> bool" where
  "sync_has_key p = (p = S_Store \<or> p = S_Response \<or> p = S_Encode \<or> p = S_Done)"

definition sync_local :: "sync_thread \<Rightarrow> bool" where
  "sync_local th =
     ((sync_has_result (s_pc th) \<longrightarrow> s_result th = 499999500000) \<and>
      (sync_has_key (s_pc th) \<longrightarrow> s_key th = request_key (s_currentCounter th)))"

definition sync_rec_inv :: "sync_sys \<Rightarrow> bool" where
  "sync_rec_inv s =
     ((\<forall>t < length (s_threads s). sync_local (s_threads s ! t)) \<and>
      (\<forall>p \<in> set (s_data s). record_ok (fst p) (s_structs s ! snd p)))"

definition sync_inv :: "sync_sys \<Rightarrow> bool" where
  "sync_inv s = (sync_heap_inv s \<and> sync_rec_inv s)"

definition sync_keeps :: "nat \<Rightarrow> sync_sys \<Rightarrow> sync_sys \<Rightarrow> bool" where
  "sync_keeps d s s' =
     ((\<exists>ys. s_structs s' = s_structs s @ ys) \<and> s_maps s' ! d = s_maps s ! d)"

definition sync_keyed :: "sync_thread \<Rightarrow> string \<Rightarrow> bool" where
  "sync_keyed th k = (sync_stored (s_pc th) \<and> request_key (s_currentCounter th) = k)"

definition sync_keys_inv :: "sync_sys \<Rightarrow> bool" where
  "sync_keys_inv s =
     (distinct (map fst (s_data s)) \<and>
      (\<forall>k. (k \<in> fst ` set (s_data s)) =
           (\<exists>t < length (s_threads s). sync_keyed (s_threads s ! t) k)))"

definition sync_inv2 :: "sync_sys \<Rightarrow> bool" where
  "sync_inv2 s = (sync_inv s \<and> sync_keys_inv s)"

text \<open>
  The data invariant of \<open>BadHandler\<close>: the keys of the map are distinct and are the keys
  of the goroutines that have written, a goroutine past the CPU loop holds its result, and
  every value of the map is that result. \<open>bad_io\<close> is the statement that writes to the
  client.
\<close>

definition bad_io :: "bad_pc \<Rightarrow> bool" where
  "bad_io p = (p = B_Encode)"

definition bad_stored :: "bad_pc \<Rightarrow> bool" where
  "bad_stored p = (p = B_Response \<or> p = B_Encode \<or> p = B_Unlock \<or> p = B_Done)"

definition bad_has_result :: "bad_pc \<Rightarrow> bool" where
  "bad_has_result p = (p = B_Write \<or> bad_stored p)"

definition bad_keyed :: "bad_thread \<Rightarrow> string \<Rightarrow> bool" where
  "bad_keyed th k = (bad_stored (b_pc th) \<and> request_key (b_currentCounter th) = k)"

definition bad_data_inv :: "bad_sys \<Rightarrow> bool" where
  "bad_data_inv s =
     (distinct (map fst (b_data s)) \<and>
      (\<forall>k. (k \<in> fst ` set (b_data s)) =
           (\<exists>t < length (b_threads s). bad_keyed (b_threads s ! t) k)) \<and>
      (\<forall>t < length (b_threads s). bad_has_result (b_pc (b_threads s ! t)) \<longrightarrow>
           b_result (b_threads s ! t) = 499999500000) \<and>
      (\<forall>p \<in> set (b_data s). snd p = 499999500000))"

section \<open>Example runs\<close>

text \<open>
  \<open>steps t k\<close>: request \<open>t\<close> takes \<open>k\<close> steps in a row, at the clock readings
  \<open>0, ..., k - 1\<close>. The example states have three requests: the
  first has finished (or, under the deferred unlock, is about to write its response), the
  second has just taken its snapshot, the third has not started. In the states
  \<open>..._before_write\<close> two requests have finished and the third is about to write its
  record.
\<close>

definition steps :: "nat \<Rightarrow> nat \<Rightarrow> event list" where
  "steps t k = map (\<lambda>i. (t, int i)) [0..<k]"

definition bad_example :: bad_sys where
  "bad_example = bad_run (steps 0 8) (bad_init 3)"

definition good_example :: good_sys where
  "good_example = good_run (steps 0 13 @ steps 1 5) (good_init 3)"

definition sync_example :: sync_sys where
  "sync_example = sync_run (steps 0 9 @ steps 1 6) (sync_init 3)"

definition bad_before_write :: bad_sys where
  "bad_before_write = bad_run (steps 0 10 @ steps 1 10 @ steps 2 6) (bad_init 3)"

definition good_before_write :: good_sys where
  "good_before_write = good_run (steps 0 13 @ steps 1 13 @ steps 2 9) (good_init 3)"

definition sync_before_write :: sync_sys where
  "sync_before_write = sync_run (steps 0 9 @ steps 1 10 @ steps 2 10) (sync_init 3)"

section \<open>Properties of the load generator\<close>

declare mal_worker.simps [simp del] bench_worker.simps [simp del] spawn.simps [simp del]

lemma upto_front: "j < n \<Longrightarrow> [j..n - 1] = j # [j + 1..n - 1]"
  by (simp add: upto_rec1)

lemma wrap64_id: "- (2 ^ 63) \<le> x \<Longrightarrow> x < 2 ^ 63 \<Longrightarrow> wrap64 x = x"
  by (simp add: wrap64_def)

lemma quo_nonneg: "0 \<le> a \<Longrightarrow> 0 < b \<Longrightarrow> quo a b = a div b"
  by (cases "a = 0") (simp_all add: quo_def)

lemma mal_worker_eq:
  "mal_worker get rpg j w =
     w\<lparr>issued := issued w + nat (rpg - j), sent := sent w @ responded get j rpg\<rparr>"
proof (induction get rpg j w rule: mal_worker.induct)
  case (1 get rpg j w)
  show ?case
  proof (cases "j < rpg")
    case True
    have n: "nat (rpg - j) = Suc (nat (rpg - (j + 1)))" using True by simp
    show ?thesis
      using True 1
      by (subst mal_worker.simps) (simp add: responded_def upto_front n split: outcome.split)
  next
    case False
    then show ?thesis
      by (subst mal_worker.simps) (simp add: responded_def)
  qed
qed

lemma bench_worker_eq:
  "bench_worker get rpg j w =
     w\<lparr>issued := issued w + nat (rpg - j),
       logged := logged w @ map (\<lambda>e. ''Request failed: '' @ e) (failures get j rpg)\<rparr>"
proof (induction get rpg j w rule: bench_worker.induct)
  case (1 get rpg j w)
  show ?case
  proof (cases "j < rpg")
    case True
    have n: "nat (rpg - j) = Suc (nat (rpg - (j + 1)))" using True by simp
    show ?thesis
      using True 1
      by (subst bench_worker.simps) (simp add: failures_def upto_front n split: outcome.split)
  next
    case False
    then show ?thesis
      by (subst bench_worker.simps) (simp add: failures_def)
  qed
qed

lemma spawn_eq: "spawn body c i ws = ws @ map body [i..c - 1]"
proof (induction body c i ws rule: spawn.induct)
  case (1 body c i ws)
  show ?case
  proof (cases "i < c")
    case True
    then show ?thesis using 1 by (subst spawn.simps) (simp add: upto_front)
  next
    case False
    then show ?thesis by (subst spawn.simps) simp
  qed
qed

lemma rpg_eq:
  assumes "0 \<le> t" "t < 2 ^ 63" "1 \<le> c"
  shows "wrap64 (quo t c) = t div c"
proof -
  have "0 \<le> t div c" using assms by (simp add: pos_imp_zdiv_nonneg_iff)
  moreover have "t div c \<le> t div 1" using assms by (intro zdiv_mono2) simp_all
  ultimately show ?thesis using assms by (simp add: quo_nonneg wrap64_id)
qed

lemma mal_workers:
  assumes "makechan rt 8 t = None" "c \<noteq> 0"
  shows "measureAverageLatency rt net url c t =
     Inr \<lparr>workers =
            map (\<lambda>i. \<lparr>issued = nat (wrap64 (quo t c)),
                      sent = responded (net url i) 0 (wrap64 (quo t c)), logged = []\<rparr>)
              [0..c - 1],
          average =
            summarize (concat (map (\<lambda>i. responded (net url i) 0 (wrap64 (quo t c))) [0..c - 1]))\<rparr>"
  using assms
  by (simp add: measureAverageLatency_def spawn_eq mal_worker_eq worker0_def Let_def comp_def)

lemma mal_stops:
  "makechan rt 8 t = Some p \<Longrightarrow> measureAverageLatency rt net url c t = Inl p"
  by (simp add: measureAverageLatency_def)

lemma makechan_None:
  "(makechan rt elemsize sz = None) =
     (0 \<le> sz \<and> elemsize * sz < 2 ^ 64 \<and> elemsize * sz \<le> maxAlloc rt - hchanSize rt \<and>
      hchanSize rt + elemsize * sz \<le> heap_free rt)"
  by (auto simp add: makechan_def)

lemma makechan_linux_amd64:
  "(makechan (linux_amd64 bytes) 8 sz = None) =
     (0 \<le> sz \<and> sz \<le> 2 ^ 45 - 12 \<and> 96 + 8 * sz \<le> bytes)"
  by (auto simp add: makechan_None linux_amd64_def)

lemma makechan_amd64_16GiB:
  "makechan amd64_16GiB 8 sz =
     (if sz < 0 \<or> 2 ^ 45 - 12 < sz then Some MakeChanSizeOutOfRange
      else if 2 ^ 31 - 12 < sz then Some OutOfMemory else None)"
  by (simp add: makechan_def amd64_16GiB_def linux_amd64_def)

lemma bench_workers:
  assumes "c \<noteq> 0"
  shows "benchmarkServer net n url c =
     Inr (map (\<lambda>i. \<lparr>issued = nat (wrap64 (quo n c)), sent = [],
                    logged = map (\<lambda>e. ''Request failed: '' @ e)
                               (failures (net url i) 0 (wrap64 (quo n c)))\<rparr>)
            [0..c - 1])"
  using assms
  by (simp add: benchmarkServer_def spawn_eq bench_worker_eq worker0_def Let_def comp_def)

lemma sum_loop_exact:
  "\<forall>l \<in> set ls. 0 \<le> l \<Longrightarrow> 0 \<le> t \<Longrightarrow> 0 \<le> c \<Longrightarrow> t + sum_list ls < 2 ^ 63 \<Longrightarrow>
   c + int (length ls) < 2 ^ 63 \<Longrightarrow>
   sum_loop ls (t, c) = (t + sum_list ls, c + int (length ls))"
proof (induction ls arbitrary: t c)
  case Nil
  then show ?case by simp
next
  case (Cons l ls)
  have nn: "0 \<le> sum_list ls" using Cons.prems(1) by (simp add: sum_list_nonneg)
  have l: "0 \<le> l" using Cons.prems(1) by simp
  have t: "wrap64 (t + l) = t + l"
    using Cons.prems nn l by (intro wrap64_id) simp_all
  have c: "wrap64 (c + 1) = c + 1"
    using Cons.prems by (intro wrap64_id) simp_all
  have "sum_loop ls (t + l, c + 1) = (t + l + sum_list ls, c + 1 + int (length ls))"
    using Cons.prems l by (intro Cons.IH) simp_all
  then show ?case by (simp add: t c)
qed

lemma outcomes_split:
  "length (responded get j n) + length (failures get j n) = nat (n - j)"
proof -
  have "length (concat (map (\<lambda>k. case get k of Got body_error d \<Rightarrow> [d] | Failed e \<Rightarrow> []) ks)) +
        length (concat (map (\<lambda>k. case get k of Failed e \<Rightarrow> [e] | Got body_error d \<Rightarrow> []) ks)) = length ks" for ks
    by (induction ks) (simp_all split: outcome.split)
  then show ?thesis by (simp add: responded_def failures_def)
qed

text \<open>
  The channel has room for \<open>totalRequests\<close> durations and the goroutines never send more,
  so a send never blocks and \<open>wg.Wait()\<close> returns.
\<close>

lemma sends_fit_channel:
  assumes m: "makechan rt 8 t = None" and t: "t < 2 ^ 63"
    and r: "measureAverageLatency rt net url c t = Inr r"
  shows "int (length (concat (map sent (workers r)))) \<le> t"
proof (cases "c = 0")
  case True
  then show ?thesis using r m by (simp add: measureAverageLatency_def)
next
  case False
  let ?rpg = "wrap64 (quo t c)"
  have t0: "0 \<le> t" using m by (simp add: makechan_None)
  have w: "map sent (workers r) = map (\<lambda>i. responded (net url i) 0 ?rpg) [0..c - 1]"
    using r mal_workers [OF m False, of net url] by (auto simp add: comp_def)
  have each: "length (responded (net url i) 0 ?rpg) \<le> nat ?rpg" for i
    using outcomes_split [of "net url i" 0 ?rpg] by simp
  have "length (concat (map sent (workers r))) =
      sum_list (map (\<lambda>i. length (responded (net url i) 0 ?rpg)) [0..c - 1])"
    by (simp add: w length_concat comp_def)
  also have "\<dots> \<le> sum_list (map (\<lambda>i. nat ?rpg) [0..c - 1])"
    by (intro sum_list_mono each)
  also have "\<dots> = length [0..c - 1] * nat ?rpg"
    by (simp add: sum_list_triv)
  finally have le: "length (concat (map sent (workers r))) \<le> length [0..c - 1] * nat ?rpg" .
  show ?thesis
  proof (cases "1 \<le> c")
    case True
    have q: "?rpg = t div c" using t0 t True by (rule rpg_eq)
    have n: "0 \<le> t div c" using t0 True by (simp add: pos_imp_zdiv_nonneg_iff)
    have "int (length [0..c - 1] * nat ?rpg) = c * (t div c)"
      using True n by (simp add: q)
    also have "\<dots> \<le> t"
      using True by (simp add: minus_mod_eq_mult_div [symmetric])
    finally show ?thesis using le by linarith
  next
    case False
    then have "length [0..c - 1] * nat ?rpg = 0" by simp
    then have "length (concat (map sent (workers r))) = 0" using le by linarith
    then show ?thesis using t0 by linarith
  qed
qed


section \<open>Properties of the floating point model\<close>

lemma bit_len_le: "n < 2 ^ k \<Longrightarrow> bit_len n \<le> int k"
proof (induction k arbitrary: n)
  case 0
  then show ?case by (subst bit_len.simps) simp
next
  case (Suc k)
  have "n div 2 < 2 ^ k" using Suc.prems by simp
  then have "bit_len (n div 2) \<le> int k" by (rule Suc.IH)
  then show ?case by (subst bit_len.simps) simp
qed

lemma int_to_float64_exact: "\<bar>m\<bar> < 2 ^ 53 \<Longrightarrow> int_to_float64 m = m"
proof -
  assume "\<bar>m\<bar> < 2 ^ 53"
  then have "bit_len \<bar>m\<bar> \<le> int 53" by (rule bit_len_le)
  then show ?thesis by (simp add: int_to_float64_def)
qed

lemma summarize_empty: "summarize [] = Fin 0"
  by (simp add: summarize_def)

text \<open>
  Without the test \<open>count == 0\<close> the empty sample set would have the quotient of zero
  by zero, which is NaN.
\<close>

lemma float64_div_zero_zero:
  "float64_div (int_to_float64 (Milliseconds 0)) (int_to_float64 0) = NaN"
  by (simp add: float64_div_def int_to_float64_def Milliseconds_def quo_def bit_len.simps)


lemma float64_rounding_examples:
  "float64_div 1 10 = Fin (3602879701896397 / 2 ^ 55) \<and>
   float64_div 1 3 = Fin (6004799503160661 / 2 ^ 54) \<and>
   float64_div (- 7) 2 = Fin (- 7 / 2) \<and>
   int_to_float64 (2 ^ 53 + 1) = 2 ^ 53 \<and> int_to_float64 (2 ^ 53 + 3) = 2 ^ 53 + 4"
  by code_simp

text \<open>
  Over non-negative durations whose sum fits 64 bits, \<open>summarize\<close> divides the whole
  milliseconds of the sum by the number of samples.
\<close>

lemma summarize_quotient:
  assumes "ls \<noteq> []" "\<forall>l \<in> set ls. 0 \<le> l" "sum_list ls < 2 ^ 63" "int (length ls) < 2 ^ 63"
  shows "summarize ls =
     float64_div (int_to_float64 (sum_list ls div 1000000)) (int_to_float64 (int (length ls)))"
proof -
  have S: "0 \<le> sum_list ls" using assms(2) by (simp add: sum_list_nonneg)
  have loop: "sum_loop ls (0, 0) = (sum_list ls, int (length ls))"
    using sum_loop_exact [of ls 0 0] assms by simp
  have ms: "Milliseconds (sum_list ls) = sum_list ls div 1000000"
    using S by (simp add: Milliseconds_def quo_nonneg)
  show ?thesis using assms(1) by (simp add: summarize_def loop ms)
qed

text \<open>Ten samples of 0.1 ms: the total is one whole millisecond, the quotient is rounded.\<close>

lemma summarize_rounds:
  "summarize [100000, 100000, 100000, 100000, 100000, 100000, 100000, 100000, 100000, 100000] =
     Fin (3602879701896397 / 2 ^ 55)"
  by code_simp
section \<open>The CPU loop and the keys\<close>

lemma cpu_loop_inv:
  "0 \<le> i \<Longrightarrow> i \<le> 1000000 \<Longrightarrow> 2 * r = i * (i - 1) \<Longrightarrow> cpu_loop i r = 499999500000"
proof (induction i r rule: cpu_loop.induct)
  case (1 i r)
  show ?case
  proof (cases "i < 1000000")
    case True
    have p: "0 \<le> i * (i - 1) \<and> i * (i - 1) \<le> 1000000 * 1000000"
    proof (cases "i = 0")
      case True
      then show ?thesis by simp
    next
      case False
      then have "0 \<le> i - 1" "i - 1 \<le> 1000000" using 1(2,3) by simp_all
      then show ?thesis using 1(2,3) by (intro conjI mult_nonneg_nonneg mult_mono) simp_all
    qed
    have r: "0 \<le> r" "r \<le> 1000000 * 1000000"
      using p 1(4) by linarith+
    have w: "wrap64 (r + i) = r + i"
      using r 1(2) True by (intro wrap64_id) simp_all
    have "2 * (r + i) = (i + 1) * (i + 1 - 1)"
      using 1(4) by (simp add: algebra_simps)
    then have "cpu_loop (i + 1) (r + i) = 499999500000"
      using 1(1) [OF True] True 1(2) w by simp
    then show ?thesis
      using True w by (subst cpu_loop.simps) simp
  next
    case False
    then have "i = 1000000" using 1(3) by simp
    then have "r = 499999500000" using 1(4) by simp
    then show ?thesis using False by (subst cpu_loop.simps) simp
  qed
qed

lemma cpu_loop_result: "cpu_loop 0 0 = 499999500000"
  by (rule cpu_loop_inv) simp_all

lemma digit_char_inj: "a < 10 \<Longrightarrow> b < 10 \<Longrightarrow> digit_char a = digit_char b \<Longrightarrow> a = b"
proof -
  assume "a < 10" "b < 10" "digit_char a = digit_char b"
  moreover have "distinct ''0123456789''" by simp
  ultimately show "a = b"
    unfolding digit_char_def by (simp add: nth_eq_iff_index_eq)
qed

lemma digit_char_not_minus: "d < 10 \<Longrightarrow> digit_char d \<noteq> CHR ''-''"
proof -
  assume "d < 10"
  then have "digit_char d \<in> set ''0123456789''"
    unfolding digit_char_def by (intro nth_mem) simp
  then show ?thesis by auto
qed

lemma show_nat_nonempty: "show_nat n \<noteq> []" "[] \<noteq> show_nat n"
  by (subst show_nat.simps, simp)+

lemma show_nat_small: "n < 10 \<Longrightarrow> show_nat n = [digit_char n]"
  by (subst show_nat.simps) simp

lemma show_nat_big: "\<not> n < 10 \<Longrightarrow> show_nat n = show_nat (n div 10) @ [digit_char (n mod 10)]"
  by (subst show_nat.simps) simp

lemma show_nat_hd: "hd (show_nat n) \<noteq> CHR ''-''"
proof (induction n rule: show_nat.induct)
  case (1 n)
  show ?case
  proof (cases "n < 10")
    case True
    then show ?thesis by (simp add: show_nat_small digit_char_not_minus)
  next
    case False
    then show ?thesis using 1 by (simp add: show_nat_big show_nat_nonempty)
  qed
qed

lemma show_nat_inj: "show_nat n = show_nat m \<Longrightarrow> n = m"
proof (induction n arbitrary: m rule: show_nat.induct)
  case (1 n)
  show ?case
  proof (cases "n < 10")
    case n: True
    show ?thesis
    proof (cases "m < 10")
      case True
      then show ?thesis using n 1(2) by (simp add: show_nat_small digit_char_inj)
    next
      case False
      then show ?thesis using n 1(2) by (simp add: show_nat_small show_nat_big show_nat_nonempty)
    qed
  next
    case n: False
    show ?thesis
    proof (cases "m < 10")
      case True
      then show ?thesis using n 1(2) by (simp add: show_nat_small show_nat_big show_nat_nonempty)
    next
      case False
      then have e: "show_nat (n div 10) = show_nat (m div 10)"
        "digit_char (n mod 10) = digit_char (m mod 10)"
        using n 1(2) by (simp_all add: show_nat_big)
      have "n div 10 = m div 10" using 1(1) [OF n e(1)] .
      moreover have "n mod 10 = m mod 10" using e(2) by (intro digit_char_inj) simp_all
      ultimately show ?thesis by (metis div_mult_mod_eq)
    qed
  qed
qed

lemma Sprintf_d_inj: "Sprintf_d a = Sprintf_d b \<Longrightarrow> a = b"
proof -
  assume e: "Sprintf_d a = Sprintf_d b"
  show "a = b"
  proof (cases "a < 0")
    case a: True
    show ?thesis
    proof (cases "b < 0")
      case True
      then have "nat (- a) = nat (- b)" using a e by (simp add: Sprintf_d_def show_nat_inj)
      then show ?thesis using a True by simp
    next
      case False
      then show ?thesis
        using a e show_nat_hd [of "nat b"] by (simp add: Sprintf_d_def) (metis list.sel(1))
    qed
  next
    case a: False
    show ?thesis
    proof (cases "b < 0")
      case True
      then show ?thesis using a e show_nat_hd [of "nat a"] by (simp add: Sprintf_d_def)
    next
      case False
      then have "nat a = nat b" using a e by (simp add: Sprintf_d_def show_nat_inj)
      then show ?thesis using a False by simp
    qed
  qed
qed

lemma request_key_inj: "request_key a = request_key b \<Longrightarrow> a = b"
  by (simp add: request_key_def Sprintf_d_inj)

section \<open>The lock discipline of the server with the deferred unlock\<close>

lemma bad_in_body_simps [simp]:
  "\<not> bad_in_body B_Start" "\<not> bad_in_body B_Lock" "bad_in_body B_Incr" "bad_in_body B_Copy"
  "bad_in_body B_Sleep" "bad_in_body B_Cpu" "bad_in_body B_Write" "bad_in_body B_Response"
  "bad_in_body B_Encode" "bad_in_body B_Unlock" "\<not> bad_in_body B_Done"
  by (simp_all add: bad_in_body_def)

lemma owner_keep:
  assumes "\<forall>u < length ths. (m = Some u) = body (ths ! u)"
    and "t < length ths" "body th' = body (ths ! t)"
  shows "\<forall>u < length ths. (m = Some u) = body (ths[t := th'] ! u)"
  using assms by (simp add: nth_list_update)

lemma owner_lock:
  assumes "\<forall>u < length ths. (None = Some u) = body (ths ! u)"
    and "t < length ths" "body th'"
  shows "\<forall>u < length ths. (Some t = Some u) = body (ths[t := th'] ! u)"
  using assms by (auto simp add: nth_list_update)

lemma owner_unlock:
  assumes "\<forall>u < length ths. (m = Some u) = body (ths ! u)"
    and "t < length ths" "\<not> body th'" "body (ths ! t)"
  shows "\<forall>u < length ths. (None = Some u) = body (ths[t := th'] ! u)"
proof (intro allI impI)
  fix u assume u: "u < length ths"
  have m: "m = Some t" using assms by simp
  show "(None = Some u) = body (ths[t := th'] ! u)"
  proof (cases "u = t")
    case True
    then show ?thesis using assms by simp
  next
    case False
    then have "m \<noteq> Some u" using m by simp
    then show ?thesis using assms(1) u False by (simp add: nth_list_update)
  qed
qed

lemma bad_length_handler [simp]:
  "length (b_threads (BadHandler t now th s)) = length (b_threads s)"
  by (cases "b_pc th"; cases "b_mu s"; simp add: BadHandler_def bad_set_def)

lemma bad_length_step [simp]: "length (b_threads (bad_step e s)) = length (b_threads s)"
  by (cases e) (simp add: bad_step_def)

lemma bad_length_run [simp]: "length (b_threads (bad_run es s)) = length (b_threads s)"
  by (induction es arbitrary: s) simp_all

lemma bad_inv_init: "bad_inv (bad_init n)"
  by (simp add: bad_inv_def bad_init_def bad_thread0_def)

lemma bad_inv_handler:
  assumes inv: "\<forall>u < length (b_threads s). (b_mu s = Some u) = (bad_in_body \<circ> b_pc) (b_threads s ! u)"
    and nf: "\<not> b_fatal s" and t: "t < length (b_threads s)"
  shows "bad_inv (BadHandler t now (b_threads s ! t) s)"
proof (cases "b_pc (b_threads s ! t)")
  case B_Start
  then show ?thesis
    using owner_keep [OF inv t, of "(b_threads s ! t)\<lparr>b_start := now, b_pc := B_Lock\<rparr>"] nf
    by (simp add: BadHandler_def bad_set_def bad_inv_def)
next
  case B_Lock
  show ?thesis
  proof (cases "b_mu s")
    case None
    then show ?thesis
      using B_Lock owner_lock [OF inv [unfolded None] t, of "(b_threads s ! t)\<lparr>b_pc := B_Incr\<rparr>"] nf
      by (simp add: BadHandler_def bad_set_def bad_inv_def)
  next
    case (Some h)
    then show ?thesis
      using B_Lock inv nf by (simp add: BadHandler_def bad_inv_def)
  qed
next
  case B_Incr
  then show ?thesis
    using owner_keep [OF inv t, of "(b_threads s ! t)\<lparr>b_currentCounter := wrap64 (b_counter s + 1), b_pc := B_Copy\<rparr>"] nf
    by (simp add: BadHandler_def bad_set_def bad_inv_def)
next
  case B_Copy
  then show ?thesis
    using owner_keep [OF inv t, of "(b_threads s ! t)\<lparr>b_dataCopy := bad_copy (b_data s) [], b_pc := B_Sleep\<rparr>"] nf
    by (simp add: BadHandler_def bad_set_def bad_inv_def)
next
  case B_Sleep
  then show ?thesis
    using owner_keep [OF inv t, of "(b_threads s ! t)\<lparr>b_pc := B_Cpu\<rparr>"] nf
    by (simp add: BadHandler_def bad_set_def bad_inv_def)
next
  case B_Cpu
  then show ?thesis
    using owner_keep [OF inv t, of "(b_threads s ! t)\<lparr>b_result := cpu_loop 0 0, b_pc := B_Write\<rparr>"] nf
    by (simp add: BadHandler_def bad_set_def bad_inv_def)
next
  case B_Write
  then show ?thesis
    using owner_keep [OF inv t, of "(b_threads s ! t)\<lparr>b_pc := B_Response\<rparr>"] nf
    by (simp add: BadHandler_def bad_set_def bad_inv_def)
next
  case B_Response
  then show ?thesis
    using owner_keep [OF inv t, of "(b_threads s ! t)\<lparr>b_response :=
                  \<lparr>method_name = ''bad_defer'', counter = b_currentCounter (b_threads s ! t), result = b_result (b_threads s ! t),
                   duration = Since_Microseconds now (b_start (b_threads s ! t))\<rparr>, b_pc := B_Encode\<rparr>"] nf
    by (simp add: BadHandler_def bad_set_def bad_inv_def)
next
  case B_Encode
  then show ?thesis
    using owner_keep [OF inv t, of "(b_threads s ! t)\<lparr>b_pc := B_Unlock\<rparr>"] nf
    by (simp add: BadHandler_def bad_set_def bad_inv_def)
next
  case B_Unlock
  then have m: "b_mu s = Some t" using inv t by simp
  show ?thesis
    using B_Unlock m owner_unlock [OF inv t, of "(b_threads s ! t)\<lparr>b_pc := B_Done\<rparr>"] nf
    by (simp add: BadHandler_def bad_set_def bad_inv_def)
next
  case B_Done
  then show ?thesis
    using inv nf by (simp add: BadHandler_def bad_inv_def)
qed

lemma bad_inv_step:
  assumes "bad_inv s"
  shows "bad_inv (bad_step e s)"
proof (cases e)
  case (Pair t now)
  show ?thesis
  proof (cases "b_fatal s \<or> \<not> t < length (b_threads s)")
    case True
    then show ?thesis using assms Pair by (simp add: bad_step_def)
  next
    case False
    then show ?thesis
      using assms bad_inv_handler [of s t now] unfolding Pair
      by (simp add: bad_step_def bad_inv_def)
  qed
qed

lemma bad_inv_run: "bad_inv s \<Longrightarrow> bad_inv (bad_run es s)"
  by (induction es arbitrary: s) (simp_all add: bad_inv_step)

lemma bad_release:
  assumes inv: "bad_inv s" and h: "b_mu s = Some t"
    and r: "b_mu (bad_step (u, now) s) \<noteq> Some t"
  shows "u = t \<and> b_pc (b_threads s ! t) = B_Unlock \<and>
         b_pc (b_threads (bad_step (u, now) s) ! t) = B_Done"
proof -
  have u: "u < length (b_threads s)" and nf: "\<not> b_fatal s"
    using r h inv by (auto simp add: bad_step_def bad_inv_def split: if_splits)
  have step: "bad_step (u, now) s = BadHandler u now (b_threads s ! u) s"
    using u nf by (simp add: bad_step_def)
  have own: "(b_mu s = Some u) = bad_in_body (b_pc (b_threads s ! u))"
    using inv u by (simp add: bad_inv_def)
  show ?thesis
    using r h own u unfolding step
    by (cases "b_pc (b_threads s ! u)")
      (simp_all add: BadHandler_def bad_set_def)
qed

section \<open>The invariants of the server with two short critical sections\<close>

lemma good_length_handler [simp]:
  "length (g_threads (GoodHandler t now th s)) = length (g_threads s)"
  by (cases "g_pc th"; cases "g_mu s"; simp add: GoodHandler_def good_set_def split: prod.split)

lemma good_length_step [simp]: "length (g_threads (good_step e s)) = length (g_threads s)"
  by (cases e) (simp add: good_step_def)

lemma good_length_run [simp]: "length (g_threads (good_run es s)) = length (g_threads s)"
  by (induction es arbitrary: s) simp_all

lemma good_critical_simps [simp]:
  "\<not> good_critical G_Start" "\<not> good_critical G_Lock1" "good_critical G_Incr"
  "good_critical G_Copy" "good_critical G_Unlock1" "\<not> good_critical G_Sleep"
  "\<not> good_critical G_Cpu" "\<not> good_critical G_Key" "\<not> good_critical G_Lock2"
  "good_critical G_Store" "good_critical G_Unlock2" "\<not> good_critical G_Response"
  "\<not> good_critical G_Encode" "\<not> good_critical G_Done"
  by (simp_all add: good_critical_def)

lemma good_lock_handler:
  assumes "good_lock_inv s" "t < length (g_threads s)"
  shows "good_lock_inv (GoodHandler t now (g_threads s ! t) s)"
proof -
  have "(g_mu s = Some t) = good_critical (g_pc (g_threads s ! t))"
    using assms by (simp add: good_lock_inv_def)
  then show ?thesis
    using assms
    by (cases "g_pc (g_threads s ! t)"; cases "g_mu s")
      (auto simp add: GoodHandler_def good_set_def good_lock_inv_def
        nth_list_update split: prod.split)
qed

lemma good_has_snapshot_simps [simp]:
  "\<not> good_has_snapshot G_Start" "\<not> good_has_snapshot G_Lock1" "\<not> good_has_snapshot G_Incr"
  "\<not> good_has_snapshot G_Copy" "good_has_snapshot G_Unlock1" "good_has_snapshot G_Sleep"
  "good_has_snapshot G_Cpu" "good_has_snapshot G_Key" "good_has_snapshot G_Lock2"
  "good_has_snapshot G_Store" "good_has_snapshot G_Unlock2" "good_has_snapshot G_Response"
  "good_has_snapshot G_Encode" "good_has_snapshot G_Done"
  by (simp_all add: good_has_snapshot_def)

lemma set_update_subset: "set (AList.update k v al) \<subseteq> insert (k, v) (set al)"
  by (induction al) auto

lemma in_update_cases: "p \<in> set (AList.update k v al) \<Longrightarrow> p = (k, v) \<or> p \<in> set al"
  using set_update_subset [of k v al] by auto

lemma length_update:
  "length (AList.update k v al) = (if k \<in> fst ` set al then length al else Suc (length al))"
  by (induction al) auto

lemma good_copy_props:
  assumes "good_copy kvs st dc = (st', dc')"
    and "\<forall>p \<in> set dc. L \<le> snd p \<and> snd p < length st" and "L \<le> length st"
  shows "(\<exists>ys. st' = st @ ys) \<and> (\<forall>p \<in> set dc'. L \<le> snd p \<and> snd p < length st')"
  using assms
proof (induction kvs arbitrary: st dc)
  case Nil
  then show ?case by simp
next
  case (Cons kv kvs)
  obtain k v where kv: "kv = (k, v)" by (cases kv)
  let ?st = "st @ [\<lparr>Identifier = Identifier (st ! v), Name = Name (st ! v),
          IsActive = IsActive (st ! v), Counter = Counter (st ! v),
          LastModified = LastModified (st ! v)\<rparr>]"
  let ?dc = "AList.update k (length st) dc"
  have c: "good_copy kvs ?st ?dc = (st', dc')"
    using Cons.prems(1) by (simp add: kv)
  have d: "\<forall>p \<in> set ?dc. L \<le> snd p \<and> snd p < length ?st"
  proof
    fix p assume "p \<in> set ?dc"
    then have "p = (k, length st) \<or> p \<in> set dc" by (rule in_update_cases)
    then show "L \<le> snd p \<and> snd p < length ?st"
      using Cons.prems(2,3) by auto
  qed
  have l: "L \<le> length ?st" using Cons.prems(3) by simp
  from Cons.IH [OF c d l] show ?case by auto
qed

lemma good_heap_init: "good_heap_inv (good_init n)"
  by (simp add: good_heap_inv_def good_init_def good_thread0_def)

lemma good_heap_copy:
  assumes inv: "good_heap_inv s" and t: "t < length (g_threads s)"
    and pc: "g_pc (g_threads s ! t) = G_Copy"
  shows "good_heap_inv (GoodHandler t now (g_threads s ! t) s)"
proof -
  obtain st' dc' where c: "good_copy (g_maps s ! g_data s) (g_structs s) [] = (st', dc')"
    by (cases "good_copy (g_maps s ! g_data s) (g_structs s) []")
  have p: "(\<exists>ys. st' = g_structs s @ ys) \<and>
           (\<forall>p \<in> set dc'. length (g_structs s) \<le> snd p \<and> snd p < length st')"
    by (rule good_copy_props [OF c]) simp_all
  then obtain ys where ys: "st' = g_structs s @ ys" by blast
  let ?n = "length (g_maps s)"
  have step: "GoodHandler t now (g_threads s ! t) s =
      good_set t ((g_threads s ! t)\<lparr>g_dataCopy := ?n, g_pc := G_Unlock1\<rparr>)
        (s\<lparr>g_structs := st', g_maps := g_maps s @ [dc']\<rparr>)"
    using pc c by (simp add: GoodHandler_def)
  have n: "0 < ?n" using inv by (simp add: good_heap_inv_def)
  have old: "\<And>d p. d < ?n \<Longrightarrow> p \<in> set (g_maps s ! d) \<Longrightarrow> snd p < length (g_structs s)"
    using inv by (simp add: good_heap_inv_def)
  have a: "\<forall>d < Suc ?n. \<forall>p \<in> set ((g_maps s @ [dc']) ! d). snd p < length st'"
  proof (intro allI impI ballI)
    fix d p assume "d < Suc ?n" "p \<in> set ((g_maps s @ [dc']) ! d)"
    then show "snd p < length st'"
      using old [of d p] p ys by (cases "d = ?n") (auto simp add: nth_append)
  qed
  have b: "\<forall>d < Suc ?n. 0 < d \<longrightarrow>
      (\<forall>p \<in> set ((g_maps s @ [dc']) ! d). \<forall>q \<in> set ((g_maps s @ [dc']) ! 0). snd p \<noteq> snd q)"
  proof (intro allI impI ballI)
    fix d p q assume d: "d < Suc ?n" "0 < d" and pq: "p \<in> set ((g_maps s @ [dc']) ! d)"
      "q \<in> set ((g_maps s @ [dc']) ! 0)"
    have q: "q \<in> set (g_maps s ! 0)" using pq(2) n by (simp add: nth_append)
    show "snd p \<noteq> snd q"
    proof (cases "d = ?n")
      case True
      then have "length (g_structs s) \<le> snd p" using pq(1) p by simp
      moreover have "snd q < length (g_structs s)" using old [OF n q] .
      ultimately show ?thesis by simp
    next
      case False
      then have "d < ?n" "p \<in> set (g_maps s ! d)" using d pq(1) by (simp_all add: nth_append)
      then show ?thesis using inv d(2) q by (simp add: good_heap_inv_def)
    qed
  qed
  have c: "\<forall>u < length (g_threads s).
      good_has_snapshot (g_pc ((g_threads s)[t := (g_threads s ! t)\<lparr>g_dataCopy := ?n, g_pc := G_Unlock1\<rparr>] ! u)) \<longrightarrow>
      0 < g_dataCopy ((g_threads s)[t := (g_threads s ! t)\<lparr>g_dataCopy := ?n, g_pc := G_Unlock1\<rparr>] ! u) \<and>
      g_dataCopy ((g_threads s)[t := (g_threads s ! t)\<lparr>g_dataCopy := ?n, g_pc := G_Unlock1\<rparr>] ! u) < Suc ?n"
    using inv n t by (auto simp add: good_heap_inv_def nth_list_update)
  show ?thesis
    unfolding step using inv a b c
    by (simp add: good_heap_inv_def good_set_def)
qed

lemma good_heap_store:
  assumes inv: "good_heap_inv s" and t: "t < length (g_threads s)"
    and pc: "g_pc (g_threads s ! t) = G_Store"
  shows "good_heap_inv (GoodHandler t now (g_threads s ! t) s)"
proof -
  let ?th = "g_threads s ! t"
  let ?rec = "\<lparr>Identifier = g_key ?th, Name = request_name (g_currentCounter ?th),
                   IsActive = True, Counter = g_result ?th, LastModified = now\<rparr>"
  let ?m = "AList.update (g_key ?th) (length (g_structs s)) (g_maps s ! 0)"
  have step: "GoodHandler t now ?th s =
      good_set t (?th\<lparr>g_pc := G_Unlock2\<rparr>)
        (s\<lparr>g_structs := g_structs s @ [?rec], g_maps := (g_maps s)[0 := ?m]\<rparr>)"
    using pc inv by (simp add: GoodHandler_def good_heap_inv_def)
  have n: "0 < length (g_maps s)" using inv by (simp add: good_heap_inv_def)
  have old: "\<And>d p. d < length (g_maps s) \<Longrightarrow> p \<in> set (g_maps s ! d) \<Longrightarrow>
      snd p < length (g_structs s)"
    using inv by (simp add: good_heap_inv_def)
  have a: "\<forall>d < length (g_maps s). \<forall>p \<in> set ((g_maps s)[0 := ?m] ! d).
      snd p < Suc (length (g_structs s))"
  proof (intro allI impI ballI)
    fix d p assume d: "d < length (g_maps s)" and p: "p \<in> set ((g_maps s)[0 := ?m] ! d)"
    show "snd p < Suc (length (g_structs s))"
    proof (cases "d = 0")
      case True
      then have "p \<in> set ?m" using p n by simp
      then have "p = (g_key ?th, length (g_structs s)) \<or> p \<in> set (g_maps s ! 0)"
        by (rule in_update_cases)
      then show ?thesis using old [OF n, of p] by auto
    next
      case False
      then show ?thesis using old [OF d, of p] p by simp
    qed
  qed
  have b: "\<forall>d < length (g_maps s). 0 < d \<longrightarrow>
      (\<forall>p \<in> set ((g_maps s)[0 := ?m] ! d). \<forall>q \<in> set ((g_maps s)[0 := ?m] ! 0). snd p \<noteq> snd q)"
  proof (intro allI impI ballI)
    fix d p q assume d: "d < length (g_maps s)" "0 < d"
      and p: "p \<in> set ((g_maps s)[0 := ?m] ! d)" and q: "q \<in> set ((g_maps s)[0 := ?m] ! 0)"
    have p': "p \<in> set (g_maps s ! d)" using p d by simp
    have "q \<in> set ?m" using q n by simp
    then have "q = (g_key ?th, length (g_structs s)) \<or> q \<in> set (g_maps s ! 0)"
      by (rule in_update_cases)
    then show "snd p \<noteq> snd q"
    proof
      assume "q = (g_key ?th, length (g_structs s))"
      then show ?thesis using old [OF d(1) p'] by simp
    next
      assume "q \<in> set (g_maps s ! 0)"
      then show ?thesis using inv d p' by (simp add: good_heap_inv_def)
    qed
  qed
  have c: "\<forall>u < length (g_threads s).
      good_has_snapshot (g_pc ((g_threads s)[t := ?th\<lparr>g_pc := G_Unlock2\<rparr>] ! u)) \<longrightarrow>
      0 < g_dataCopy ((g_threads s)[t := ?th\<lparr>g_pc := G_Unlock2\<rparr>] ! u) \<and>
      g_dataCopy ((g_threads s)[t := ?th\<lparr>g_pc := G_Unlock2\<rparr>] ! u) < length (g_maps s)"
    using inv pc t by (auto simp add: good_heap_inv_def nth_list_update)
  show ?thesis
    unfolding step using inv a b c
    by (simp add: good_heap_inv_def good_set_def)
qed

lemma good_heap_handler:
  assumes inv: "good_heap_inv s" and t: "t < length (g_threads s)"
  shows "good_heap_inv (GoodHandler t now (g_threads s ! t) s)"
proof (cases "g_pc (g_threads s ! t) = G_Copy \<or> g_pc (g_threads s ! t) = G_Store")
  case True
  then show ?thesis using good_heap_copy [OF inv t] good_heap_store [OF inv t] by blast
next
  case False
  then show ?thesis
    using inv t
    by (cases "g_pc (g_threads s ! t)"; cases "g_mu s")
      (auto simp add: GoodHandler_def good_set_def good_heap_inv_def nth_list_update)
qed

lemma good_has_result_simps [simp]:
  "\<not> good_has_result G_Start" "\<not> good_has_result G_Lock1" "\<not> good_has_result G_Incr"
  "\<not> good_has_result G_Copy" "\<not> good_has_result G_Unlock1" "\<not> good_has_result G_Sleep"
  "\<not> good_has_result G_Cpu" "good_has_result G_Key" "good_has_result G_Lock2"
  "good_has_result G_Store" "good_has_result G_Unlock2" "good_has_result G_Response"
  "good_has_result G_Encode" "good_has_result G_Done"
  by (simp_all add: good_has_result_def)

lemma good_has_key_simps [simp]:
  "\<not> good_has_key G_Start" "\<not> good_has_key G_Lock1" "\<not> good_has_key G_Incr"
  "\<not> good_has_key G_Copy" "\<not> good_has_key G_Unlock1" "\<not> good_has_key G_Sleep"
  "\<not> good_has_key G_Cpu" "\<not> good_has_key G_Key" "good_has_key G_Lock2"
  "good_has_key G_Store" "good_has_key G_Unlock2" "good_has_key G_Response"
  "good_has_key G_Encode" "good_has_key G_Done"
  by (simp_all add: good_has_key_def)

lemma good_addr_valid:
  "good_heap_inv s \<Longrightarrow> d < length (g_maps s) \<Longrightarrow> p \<in> set (g_maps s ! d) \<Longrightarrow>
   snd p < length (g_structs s)"
  by (simp add: good_heap_inv_def)

lemma good_rec_init: "good_rec_inv (good_init n)"
  by (simp add: good_rec_inv_def good_init_def good_thread0_def good_local_def)

lemma good_rec_copy:
  assumes inv: "good_rec_inv s" and h: "good_heap_inv s" and t: "t < length (g_threads s)"
    and pc: "g_pc (g_threads s ! t) = G_Copy"
  shows "good_rec_inv (GoodHandler t now (g_threads s ! t) s)"
proof -
  obtain st' dc' where c: "good_copy (g_maps s ! g_data s) (g_structs s) [] = (st', dc')"
    by (cases "good_copy (g_maps s ! g_data s) (g_structs s) []")
  have "(\<exists>ys. st' = g_structs s @ ys) \<and>
           (\<forall>p \<in> set dc'. length (g_structs s) \<le> snd p \<and> snd p < length st')"
    by (rule good_copy_props [OF c]) simp_all
  then obtain ys where ys: "st' = g_structs s @ ys" by blast
  let ?th = "(g_threads s ! t)\<lparr>g_dataCopy := length (g_maps s), g_pc := G_Unlock1\<rparr>"
  have step: "GoodHandler t now (g_threads s ! t) s =
      good_set t ?th (s\<lparr>g_structs := st', g_maps := g_maps s @ [dc']\<rparr>)"
    using pc c by (simp add: GoodHandler_def)
  have d: "g_data s = 0" "0 < length (g_maps s)" using h by (simp_all add: good_heap_inv_def)
  have a: "\<forall>u < length (g_threads s). good_local ((g_threads s)[t := ?th] ! u)"
    using inv t by (auto simp add: good_rec_inv_def nth_list_update good_local_def)
  have b: "\<forall>p \<in> set ((g_maps s @ [dc']) ! 0). record_ok (fst p) (st' ! snd p)"
  proof
    fix p assume "p \<in> set ((g_maps s @ [dc']) ! 0)"
    then have p: "p \<in> set (g_maps s ! 0)" using d by (simp add: nth_append)
    then have "snd p < length (g_structs s)" using good_addr_valid [OF h d(2)] by simp
    then have "st' ! snd p = g_structs s ! snd p" by (simp add: ys nth_append)
    then show "record_ok (fst p) (st' ! snd p)" using inv p d by (simp add: good_rec_inv_def)
  qed
  show ?thesis
    unfolding step using a b d by (simp add: good_rec_inv_def good_set_def)
qed

lemma good_rec_store:
  assumes inv: "good_rec_inv s" and h: "good_heap_inv s" and t: "t < length (g_threads s)"
    and pc: "g_pc (g_threads s ! t) = G_Store"
  shows "good_rec_inv (GoodHandler t now (g_threads s ! t) s)"
proof -
  let ?th = "g_threads s ! t"
  let ?rec = "\<lparr>Identifier = g_key ?th, Name = request_name (g_currentCounter ?th),
                   IsActive = True, Counter = g_result ?th, LastModified = now\<rparr>"
  let ?m = "AList.update (g_key ?th) (length (g_structs s)) (g_maps s ! 0)"
  have d: "g_data s = 0" "0 < length (g_maps s)" using h by (simp_all add: good_heap_inv_def)
  have step: "GoodHandler t now ?th s =
      good_set t (?th\<lparr>g_pc := G_Unlock2\<rparr>)
        (s\<lparr>g_structs := g_structs s @ [?rec], g_maps := (g_maps s)[0 := ?m]\<rparr>)"
    using pc d by (simp add: GoodHandler_def)
  have loc: "good_local ?th" using inv t by (simp add: good_rec_inv_def)
  have ok: "record_ok (g_key ?th) ?rec"
    using loc pc by (auto simp add: good_local_def record_ok_def)
  have a: "\<forall>u < length (g_threads s). good_local ((g_threads s)[t := ?th\<lparr>g_pc := G_Unlock2\<rparr>] ! u)"
    using inv t pc by (auto simp add: good_rec_inv_def nth_list_update good_local_def)
  have b: "\<forall>p \<in> set ((g_maps s)[0 := ?m] ! 0). record_ok (fst p) ((g_structs s @ [?rec]) ! snd p)"
  proof
    fix p assume "p \<in> set ((g_maps s)[0 := ?m] ! 0)"
    then have "p \<in> set ?m" using d by simp
    then have "p = (g_key ?th, length (g_structs s)) \<or> p \<in> set (g_maps s ! 0)"
      by (rule in_update_cases)
    then show "record_ok (fst p) ((g_structs s @ [?rec]) ! snd p)"
    proof
      assume "p = (g_key ?th, length (g_structs s))"
      then show ?thesis using ok by simp
    next
      assume p: "p \<in> set (g_maps s ! 0)"
      then have "snd p < length (g_structs s)" using good_addr_valid [OF h d(2)] by simp
      then show ?thesis using inv p d by (simp add: good_rec_inv_def nth_append)
    qed
  qed
  show ?thesis
    unfolding step using a b d by (simp add: good_rec_inv_def good_set_def)
qed

lemma good_rec_handler:
  assumes inv: "good_rec_inv s" and h: "good_heap_inv s" and t: "t < length (g_threads s)"
  shows "good_rec_inv (GoodHandler t now (g_threads s ! t) s)"
proof (cases "g_pc (g_threads s ! t) = G_Copy \<or> g_pc (g_threads s ! t) = G_Store")
  case True
  then show ?thesis using good_rec_copy [OF inv h t] good_rec_store [OF inv h t] by blast
next
  case False
  then show ?thesis
    using inv t
    by (cases "g_pc (g_threads s ! t)"; cases "g_mu s")
      (auto simp add: GoodHandler_def good_set_def good_rec_inv_def nth_list_update
        good_local_def cpu_loop_result)
qed

lemma good_inv_init: "good_inv (good_init n)"
  by (simp add: good_inv_def good_heap_init good_rec_init)
    (simp add: good_lock_inv_def good_init_def good_thread0_def)

lemma good_inv_step: "good_inv s \<Longrightarrow> good_inv (good_step e s)"
  by (cases e)
    (simp add: good_step_def good_inv_def good_lock_handler good_heap_handler good_rec_handler)

lemma good_inv_run: "good_inv s \<Longrightarrow> good_inv (good_run es s)"
  by (induction es arbitrary: s) (simp_all add: good_inv_step)

lemma good_extends_refl: "good_extends s s"
  by (simp add: good_extends_def)

lemma good_extends_trans:
  assumes "good_extends s s'" "good_extends s' s''"
  shows "good_extends s s''"
proof -
  have 1: "\<exists>ys. g_structs s' = g_structs s @ ys" "length (g_maps s) \<le> length (g_maps s')"
    "g_data s' = g_data s"
    "\<forall>d < length (g_maps s). d \<noteq> g_data s \<longrightarrow> g_maps s' ! d = g_maps s ! d"
    "fst ` set (g_maps s ! g_data s) \<subseteq> fst ` set (g_maps s' ! g_data s')"
    using assms(1) unfolding good_extends_def by blast+
  have 2: "\<exists>ys. g_structs s'' = g_structs s' @ ys" "length (g_maps s') \<le> length (g_maps s'')"
    "g_data s'' = g_data s'"
    "\<forall>d < length (g_maps s'). d \<noteq> g_data s' \<longrightarrow> g_maps s'' ! d = g_maps s' ! d"
    "fst ` set (g_maps s' ! g_data s') \<subseteq> fst ` set (g_maps s'' ! g_data s'')"
    using assms(2) unfolding good_extends_def by blast+
  obtain ys where ys: "g_structs s' = g_structs s @ ys" using 1(1) by blast
  obtain zs where zs: "g_structs s'' = g_structs s' @ zs" using 2(1) by blast
  have a: "\<exists>ws. g_structs s'' = g_structs s @ ws" using ys zs by simp
  have b: "\<forall>d < length (g_maps s). d \<noteq> g_data s \<longrightarrow> g_maps s'' ! d = g_maps s ! d"
  proof (intro allI impI)
    fix d assume d: "d < length (g_maps s)" "d \<noteq> g_data s"
    then have "g_maps s'' ! d = g_maps s' ! d" using 1(2,3) 2(4) by simp
    then show "g_maps s'' ! d = g_maps s ! d" using 1(4) d by simp
  qed
  have c: "fst ` set (g_maps s ! g_data s) \<subseteq> fst ` set (g_maps s'' ! g_data s'')"
    using 1(5) 2(5) by (rule order_trans)
  have d: "length (g_maps s) \<le> length (g_maps s'')" using 1(2) 2(2) by simp
  have e: "g_data s'' = g_data s" using 1(3) 2(3) by simp
  show ?thesis
    unfolding good_extends_def using a b c d e by blast
qed

lemma good_extends_handler:
  assumes r: "g_data s < length (g_maps s)"
  shows "good_extends s (GoodHandler t now th s)"
proof (cases "g_pc th = G_Copy \<or> g_pc th = G_Store")
  case True
  then show ?thesis
  proof
    assume pc: "g_pc th = G_Copy"
    obtain st' dc' where c: "good_copy (g_maps s ! g_data s) (g_structs s) [] = (st', dc')"
      by (cases "good_copy (g_maps s ! g_data s) (g_structs s) []")
    have "(\<exists>ys. st' = g_structs s @ ys) \<and>
           (\<forall>p \<in> set dc'. length (g_structs s) \<le> snd p \<and> snd p < length st')"
      by (rule good_copy_props [OF c]) simp_all
    then show ?thesis
      using pc c r
      by (auto simp add: GoodHandler_def good_set_def good_extends_def nth_append)
  next
    assume pc: "g_pc th = G_Store"
    show ?thesis
      using pc r
      by (auto simp add: GoodHandler_def good_set_def good_extends_def dom_update)
  qed
next
  case False
  then show ?thesis
    by (cases "g_pc th"; cases "g_mu s")
      (simp_all add: GoodHandler_def good_set_def good_extends_def)
qed

lemma good_extends_step: "good_inv s \<Longrightarrow> good_extends s (good_step e s)"
  by (cases e)
    (simp add: good_step_def good_extends_handler good_extends_refl good_inv_def
      good_heap_inv_def)

lemma good_extends_run: "good_inv s \<Longrightarrow> good_extends s (good_run es s)"
proof (induction es arbitrary: s)
  case Nil
  then show ?case by (simp add: good_extends_refl)
next
  case (Cons e es)
  have "good_extends (good_step e s) (good_run es (good_step e s))"
    using Cons.prems by (intro Cons.IH good_inv_step)
  then show ?case
    using good_extends_trans [OF good_extends_step [OF Cons.prems]] by simp
qed

lemma good_snapshot_kept_handler:
  assumes "good_has_snapshot (g_pc (g_threads s ! t))" "t < length (g_threads s)"
    "u < length (g_threads s)"
  shows "good_has_snapshot (g_pc (g_threads (GoodHandler u now (g_threads s ! u) s) ! t)) \<and>
         g_dataCopy (g_threads (GoodHandler u now (g_threads s ! u) s) ! t) =
         g_dataCopy (g_threads s ! t)"
proof (cases "u = t")
  case True
  then show ?thesis
    using assms
    by (cases "g_pc (g_threads s ! t)"; cases "g_mu s")
      (simp_all add: GoodHandler_def good_set_def split: prod.split)
next
  case False
  then have "g_threads (GoodHandler u now (g_threads s ! u) s) ! t = g_threads s ! t"
    by (cases "g_pc (g_threads s ! u)"; cases "g_mu s")
      (simp_all add: GoodHandler_def good_set_def split: prod.split)
  then show ?thesis using assms by simp
qed

lemma good_snapshot_kept_step:
  assumes "good_has_snapshot (g_pc (g_threads s ! t))" "t < length (g_threads s)"
  shows "good_has_snapshot (g_pc (g_threads (good_step e s) ! t)) \<and>
         g_dataCopy (g_threads (good_step e s) ! t) = g_dataCopy (g_threads s ! t)"
  using assms good_snapshot_kept_handler [OF assms]
  by (cases e) (simp add: good_step_def)

lemma good_snapshot_kept_run:
  assumes "good_has_snapshot (g_pc (g_threads s ! t))" "t < length (g_threads s)"
  shows "good_has_snapshot (g_pc (g_threads (good_run es s) ! t)) \<and>
         g_dataCopy (g_threads (good_run es s) ! t) = g_dataCopy (g_threads s ! t)"
  using assms
proof (induction es arbitrary: s)
  case Nil
  then show ?case by simp
next
  case (Cons e es)
  have "good_has_snapshot (g_pc (g_threads (good_step e s) ! t))"
    "g_dataCopy (g_threads (good_step e s) ! t) = g_dataCopy (g_threads s ! t)"
    using good_snapshot_kept_step [OF Cons.prems] by simp_all
  then show ?case
    using Cons.IH [of "good_step e s"] Cons.prems(2) by simp
qed

lemma good_view_kept:
  assumes e: "good_extends s s'" and h: "good_heap_inv s"
    and d: "d < length (g_maps s)" "d \<noteq> g_data s"
  shows "g_maps s' ! d = g_maps s ! d \<and> good_view s' d = good_view s d"
proof -
  obtain ys where ys: "g_structs s' = g_structs s @ ys"
    using e by (auto simp add: good_extends_def)
  have m: "g_maps s' ! d = g_maps s ! d" using e d by (simp add: good_extends_def)
  have "\<And>p. p \<in> set (g_maps s ! d) \<Longrightarrow> g_structs s' ! snd p = g_structs s ! snd p"
    using good_addr_valid [OF h d(1)] by (simp add: ys nth_append)
  then have "map (\<lambda>(k, a). (k, g_structs s' ! a)) (g_maps s ! d) =
             map (\<lambda>(k, a). (k, g_structs s ! a)) (g_maps s ! d)"
    by (intro map_cong) auto
  then show ?thesis by (simp add: good_view_def m)
qed

lemma good_stored_simps [simp]:
  "\<not> good_stored G_Start" "\<not> good_stored G_Lock1" "\<not> good_stored G_Incr"
  "\<not> good_stored G_Copy" "\<not> good_stored G_Unlock1" "\<not> good_stored G_Sleep"
  "\<not> good_stored G_Cpu" "\<not> good_stored G_Key" "\<not> good_stored G_Lock2"
  "\<not> good_stored G_Store" "good_stored G_Unlock2" "good_stored G_Response"
  "good_stored G_Encode" "good_stored G_Done"
  by (simp_all add: good_stored_def)

lemma ex_update_keep:
  assumes "t < length ths" "\<And>k. Q th' k = Q (ths ! t) k"
  shows "(\<exists>u < length ths. Q (ths[t := th'] ! u) k) = (\<exists>u < length ths. Q (ths ! u) k)"
proof
  assume "\<exists>u < length ths. Q (ths[t := th'] ! u) k"
  then obtain u where u: "u < length ths" "Q (ths[t := th'] ! u) k" by blast
  then have "Q (ths ! u) k" using assms by (cases "u = t") simp_all
  then show "\<exists>u < length ths. Q (ths ! u) k" using u(1) by blast
next
  assume "\<exists>u < length ths. Q (ths ! u) k"
  then obtain u where u: "u < length ths" "Q (ths ! u) k" by blast
  then have "Q (ths[t := th'] ! u) k" using assms by (cases "u = t") simp_all
  then show "\<exists>u < length ths. Q (ths[t := th'] ! u) k" using u(1) by blast
qed

lemma ex_update_new:
  assumes "t < length ths" "\<And>k. \<not> Q (ths ! t) k"
  shows "(\<exists>u < length ths. Q (ths[t := th'] ! u) k) =
         (Q th' k \<or> (\<exists>u < length ths. Q (ths ! u) k))"
proof
  assume "\<exists>u < length ths. Q (ths[t := th'] ! u) k"
  then obtain u where u: "u < length ths" "Q (ths[t := th'] ! u) k" by blast
  show "Q th' k \<or> (\<exists>u < length ths. Q (ths ! u) k)"
  proof (cases "u = t")
    case True
    then show ?thesis using u assms(1) by simp
  next
    case False
    then have "Q (ths ! u) k" using u by simp
    then show ?thesis using u(1) by blast
  qed
next
  assume "Q th' k \<or> (\<exists>u < length ths. Q (ths ! u) k)"
  then show "\<exists>u < length ths. Q (ths[t := th'] ! u) k"
  proof
    assume "Q th' k"
    then have "Q (ths[t := th'] ! t) k" using assms(1) by simp
    then show ?thesis using assms(1) by blast
  next
    assume "\<exists>u < length ths. Q (ths ! u) k"
    then obtain u where u: "u < length ths" "Q (ths ! u) k" by blast
    then have "u \<noteq> t" using assms(2) by blast
    then have "Q (ths[t := th'] ! u) k" using u by simp
    then show ?thesis using u(1) by blast
  qed
qed

lemma good_keys_inv_alt:
  "good_keys_inv s =
     (distinct (map fst (g_maps s ! g_data s)) \<and>
      (\<forall>k. (k \<in> fst ` set (g_maps s ! g_data s)) =
           (\<exists>t < length (g_threads s). good_keyed (g_threads s ! t) k)))"
  by (simp add: good_keys_inv_def good_keyed_def)

lemma good_keys_init: "good_keys_inv (good_init n)"
  by (auto simp add: good_keys_inv_def good_init_def good_thread0_def)

lemma good_keys_local:
  assumes k: "good_keys_inv s" and t: "t < length (g_threads s)"
    and m: "g_maps s' ! g_data s' = g_maps s ! g_data s"
    and th: "g_threads s' = (g_threads s)[t := th']"
    and q: "\<And>k. good_keyed th' k = good_keyed (g_threads s ! t) k"
  shows "good_keys_inv s'"
  using k unfolding good_keys_inv_alt m th
  by (simp add: ex_update_keep [of t "g_threads s" good_keyed th', OF t q])

lemma good_keys_handler:
  assumes k: "good_keys_inv s" and inv: "good_inv s" and t: "t < length (g_threads s)"
  shows "good_keys_inv (GoodHandler t now (g_threads s ! t) s)"
proof -
  let ?th = "g_threads s ! t"
  have d: "g_data s = 0" "0 < length (g_maps s)"
    using inv by (simp_all add: good_inv_def good_heap_inv_def)
  have loc: "good_local ?th" using inv t by (simp add: good_inv_def good_rec_inv_def)
  show ?thesis
  proof (cases "g_pc ?th")
    case G_Store
    let ?m = "AList.update (g_key ?th) (length (g_structs s)) (g_maps s ! 0)"
    have key: "g_key ?th = request_key (g_currentCounter ?th)"
      using loc G_Store by (simp add: good_local_def)
    have n: "\<And>k. \<not> good_keyed ?th k" using G_Store by (simp add: good_keyed_def)
    have e: "\<And>k. (\<exists>u < length (g_threads s). good_keyed ((g_threads s)[t := ?th\<lparr>g_pc := G_Unlock2\<rparr>] ! u) k) =
        (good_keyed (?th\<lparr>g_pc := G_Unlock2\<rparr>) k \<or> (\<exists>u < length (g_threads s). good_keyed (g_threads s ! u) k))"
      by (rule ex_update_new [of t "g_threads s" good_keyed, OF t n])
    have "distinct (map fst ?m)"
      using k d by (simp add: good_keys_inv_def distinct_update)
    moreover have "\<And>k. (k \<in> fst ` set ?m) =
        (\<exists>u < length (g_threads s). good_keyed ((g_threads s)[t := ?th\<lparr>g_pc := G_Unlock2\<rparr>] ! u) k)"
      using k d unfolding e good_keys_inv_alt
      by (auto simp add: dom_update good_keyed_def key)
    ultimately show ?thesis
      using G_Store d unfolding good_keys_inv_alt
      by (simp add: GoodHandler_def good_set_def)
  next
    case G_Copy
    obtain st' dc' where c: "good_copy (g_maps s ! g_data s) (g_structs s) [] = (st', dc')"
      by (cases "good_copy (g_maps s ! g_data s) (g_structs s) []")
    show ?thesis
      by (rule good_keys_local [OF k t, of _ "?th\<lparr>g_dataCopy := length (g_maps s), g_pc := G_Unlock1\<rparr>"])
        (use G_Copy c d in \<open>simp_all add: GoodHandler_def good_set_def nth_append good_keyed_def\<close>)
  next
    case G_Start
    show ?thesis
      by (rule good_keys_local [OF k t, of _ "?th\<lparr>g_start := now, g_pc := G_Lock1\<rparr>"])
        (use G_Start in \<open>simp_all add: GoodHandler_def good_set_def good_keyed_def\<close>)
  next
    case G_Lock1
    show ?thesis
    proof (cases "g_mu s")
      case None
      show ?thesis
        by (rule good_keys_local [OF k t, of _ "?th\<lparr>g_pc := G_Incr\<rparr>"])
          (use G_Lock1 None in \<open>simp_all add: GoodHandler_def good_set_def good_keyed_def\<close>)
    next
      case (Some h)
      then show ?thesis using k G_Lock1 by (simp add: GoodHandler_def)
    qed
  next
    case G_Incr
    show ?thesis
      by (rule good_keys_local [OF k t, of _
            "?th\<lparr>g_currentCounter := wrap64 (g_counter s + 1), g_pc := G_Copy\<rparr>"])
        (use G_Incr in \<open>simp_all add: GoodHandler_def good_set_def good_keyed_def\<close>)
  next
    case G_Unlock1
    show ?thesis
    proof (cases "g_mu s")
      case None
      then show ?thesis using k G_Unlock1 by (simp add: GoodHandler_def good_keys_inv_def)
    next
      case (Some h)
      show ?thesis
        by (rule good_keys_local [OF k t, of _ "?th\<lparr>g_pc := G_Sleep\<rparr>"])
          (use G_Unlock1 Some in \<open>simp_all add: GoodHandler_def good_set_def good_keyed_def\<close>)
    qed
  next
    case G_Sleep
    show ?thesis
      by (rule good_keys_local [OF k t, of _ "?th\<lparr>g_pc := G_Cpu\<rparr>"])
        (use G_Sleep in \<open>simp_all add: GoodHandler_def good_set_def good_keyed_def\<close>)
  next
    case G_Cpu
    show ?thesis
      by (rule good_keys_local [OF k t, of _ "?th\<lparr>g_result := cpu_loop 0 0, g_pc := G_Key\<rparr>"])
        (use G_Cpu in \<open>simp_all add: GoodHandler_def good_set_def good_keyed_def\<close>)
  next
    case G_Key
    show ?thesis
      by (rule good_keys_local [OF k t, of _
            "?th\<lparr>g_key := request_key (g_currentCounter ?th), g_pc := G_Lock2\<rparr>"])
        (use G_Key in \<open>simp_all add: GoodHandler_def good_set_def good_keyed_def\<close>)
  next
    case G_Lock2
    show ?thesis
    proof (cases "g_mu s")
      case None
      show ?thesis
        by (rule good_keys_local [OF k t, of _ "?th\<lparr>g_pc := G_Store\<rparr>"])
          (use G_Lock2 None in \<open>simp_all add: GoodHandler_def good_set_def good_keyed_def\<close>)
    next
      case (Some h)
      then show ?thesis using k G_Lock2 by (simp add: GoodHandler_def)
    qed
  next
    case G_Unlock2
    show ?thesis
    proof (cases "g_mu s")
      case None
      then show ?thesis using k G_Unlock2 by (simp add: GoodHandler_def good_keys_inv_def)
    next
      case (Some h)
      show ?thesis
        by (rule good_keys_local [OF k t, of _ "?th\<lparr>g_pc := G_Response\<rparr>"])
          (use G_Unlock2 Some in \<open>simp_all add: GoodHandler_def good_set_def good_keyed_def\<close>)
    qed
  next
    case G_Response
    show ?thesis
      by (rule good_keys_local [OF k t, of _
            "?th\<lparr>g_response :=
                  \<lparr>method_name = ''good_no_defer'', counter = g_currentCounter ?th,
                   result = g_result ?th, duration = Since_Microseconds now (g_start ?th)\<rparr>,
                g_pc := G_Encode\<rparr>"])
        (use G_Response in \<open>simp_all add: GoodHandler_def good_set_def good_keyed_def\<close>)
  next
    case G_Encode
    show ?thesis
      by (rule good_keys_local [OF k t, of _ "?th\<lparr>g_pc := G_Done\<rparr>"])
        (use G_Encode in \<open>simp_all add: GoodHandler_def good_set_def good_keyed_def\<close>)
  next
    case G_Done
    then show ?thesis using k by (simp add: GoodHandler_def)
  qed
qed

lemma good_inv2_init: "good_inv2 (good_init n)"
  by (simp add: good_inv2_def good_inv_init good_keys_init)

lemma good_inv2_step:
  assumes "good_inv2 s"
  shows "good_inv2 (good_step e s)"
proof -
  have "good_keys_inv (good_step e s)"
    using assms by (cases e) (simp add: good_inv2_def good_step_def good_keys_handler)
  then show ?thesis using assms by (simp add: good_inv2_def good_inv_step)
qed

lemma good_inv2_run: "good_inv2 s \<Longrightarrow> good_inv2 (good_run es s)"
  by (induction es arbitrary: s) (simp_all add: good_inv2_step)

lemma good_reachable: "good_inv2 (good_run sched (good_init n))"
  by (intro good_inv2_run good_inv2_init)

lemma good_run_append: "good_run (es @ fs) s = good_run fs (good_run es s)"
  by (induction es arbitrary: s) simp_all

lemma count_keys:
  assumes d: "distinct (map fst m)"
    and k: "\<And>k. (k \<in> fst ` set m) = (\<exists>t < length ths. P (ths ! t) \<and> request_key (c (ths ! t)) = k)"
    and i: "distinct (map c (filter P ths))"
  shows "length m = length (filter P ths)"
proof -
  have "fst ` set m = request_key ` set (map c (filter P ths))"
  proof (intro set_eqI iffI)
    fix x assume "x \<in> fst ` set m"
    then obtain t where "t < length ths" "P (ths ! t)" "request_key (c (ths ! t)) = x"
      using k by blast
    then have "c (ths ! t) \<in> set (map c (filter P ths))" "x = request_key (c (ths ! t))"
      by simp_all
    then show "x \<in> request_key ` set (map c (filter P ths))"
      by (rule_tac image_eqI)
  next
    fix x assume "x \<in> request_key ` set (map c (filter P ths))"
    then obtain th where th: "th \<in> set ths" "P th" "x = request_key (c th)" by auto
    then obtain t where "t < length ths" "ths ! t = th" by (auto simp add: in_set_conv_nth)
    then show "x \<in> fst ` set m" using k th by blast
  qed
  then have "card (set (map fst m)) = card (request_key ` set (map c (filter P ths)))"
    by simp
  also have "\<dots> = card (set (map c (filter P ths)))"
    by (intro card_image inj_onI) (rule request_key_inj)
  finally show ?thesis
    using distinct_card [OF d] distinct_card [OF i] by simp
qed

lemma good_count:
  assumes "good_keys_inv s"
    and "distinct (map g_currentCounter (filter (\<lambda>th. good_stored (g_pc th)) (g_threads s)))"
  shows "snd (good_stats s) = int (length (filter (\<lambda>th. good_stored (g_pc th)) (g_threads s)))"
  using count_keys [of "g_maps s ! g_data s" "g_threads s" "\<lambda>th. good_stored (g_pc th)"
      g_currentCounter] assms
  by (simp add: good_keys_inv_def good_stats_def)

lemma good_store_effect:
  assumes inv: "good_inv s" and t: "t < length (g_threads s)"
    and pc: "g_pc (g_threads s ! t) = G_Store"
  shows "g_structs (good_step (t, now) s) =
           g_structs s @
           [\<lparr>Identifier = request_key (g_currentCounter (g_threads s ! t)),
             Name = request_name (g_currentCounter (g_threads s ! t)), IsActive = True,
             Counter = 499999500000, LastModified = now\<rparr>] \<and>
         g_maps (good_step (t, now) s) =
           (g_maps s)[g_data s :=
             AList.update (request_key (g_currentCounter (g_threads s ! t)))
               (length (g_structs s)) (g_maps s ! g_data s)] \<and>
         (\<forall>d < length (g_maps s). \<forall>p \<in> set (g_maps s ! d). snd p \<noteq> length (g_structs s))"
proof -
  have nf: "\<not> g_fatal s" using inv by (simp add: good_inv_def good_lock_inv_def)
  have loc: "good_local (g_threads s ! t)" using inv t by (simp add: good_inv_def good_rec_inv_def)
  have h: "good_heap_inv s" using inv by (simp add: good_inv_def)
  have "\<forall>d < length (g_maps s). \<forall>p \<in> set (g_maps s ! d). snd p \<noteq> length (g_structs s)"
    using good_addr_valid [OF h] by fastforce
  then show ?thesis
    using nf loc t pc by (simp add: good_step_def GoodHandler_def good_set_def good_local_def)
qed

lemma good_other_steps:
  assumes "g_pc (g_threads s ! t) \<noteq> G_Store" "g_data s < length (g_maps s)"
  shows "g_maps (good_step (t, now) s) ! g_data s = g_maps s ! g_data s"
  using assms
  by (cases "g_pc (g_threads s ! t)"; cases "g_mu s")
    (simp_all add: good_step_def GoodHandler_def good_set_def nth_append split: prod.split)

lemma wrap64_wrap64_add: "wrap64 (wrap64 a + b) = wrap64 (a + b)"
proof -
  have "wrap64 a + b + 2 ^ 63 = (a + 2 ^ 63) mod 2 ^ 64 + b"
    by (simp add: wrap64_def)
  then have "(wrap64 a + b + 2 ^ 63) mod 2 ^ 64 = ((a + 2 ^ 63) mod 2 ^ 64 + b) mod 2 ^ 64"
    by (rule arg_cong)
  also have "\<dots> = (a + 2 ^ 63 + b) mod 2 ^ 64"
    by (rule mod_add_left_eq)
  also have "a + 2 ^ 63 + b = a + b + 2 ^ 63"
    by simp
  finally have "(wrap64 a + b + 2 ^ 63) mod 2 ^ 64 = (a + b + 2 ^ 63) mod 2 ^ 64" .
  then show ?thesis
    unfolding wrap64_def [of "wrap64 a + b"] wrap64_def [of "a + b"] by (rule arg_cong)
qed

lemma upt_shift: "[1..<Suc (Suc m)] = 1 # map Suc [1..<Suc m]"
  by (simp add: upt_conv_Cons map_Suc_upt del: upt_Suc)

lemma ids_shape:
  assumes "ids = map (\<lambda>i. wrap64 (wrap64 (c + 1) + int i)) [1..<Suc m]"
  shows "wrap64 (c + 1) # ids = map (\<lambda>i. wrap64 (c + int i)) [1..<Suc (Suc m)]"
  unfolding upt_shift assms
  by (simp add: wrap64_wrap64_add comp_def add.assoc del: upt_Suc)

lemma good_counter_step:
  "g_counter (good_step e s) =
     (if \<not> g_fatal s \<and> fst e < length (g_threads s) \<and> g_pc (g_threads s ! fst e) = G_Incr
      then wrap64 (g_counter s + 1) else g_counter s)"
  by (cases e; cases "g_pc (g_threads s ! fst e)"; cases "g_mu s")
    (simp_all add: good_step_def GoodHandler_def good_set_def split: prod.split)

lemma good_id_step:
  "\<not> g_fatal s \<Longrightarrow> fst e < length (g_threads s) \<Longrightarrow> g_pc (g_threads s ! fst e) = G_Incr \<Longrightarrow>
   g_currentCounter (g_threads (good_step e s) ! fst e) = wrap64 (g_counter s + 1)"
  by (cases e) (simp add: good_step_def GoodHandler_def good_set_def)

lemma good_ids_eq:
  "good_ids es s =
     map (\<lambda>i. wrap64 (g_counter s + int i)) [1..<Suc (length (good_ids es s))]"
proof (induction es arbitrary: s)
  case Nil
  then show ?case by simp
next
  case (Cons e es)
  let ?s = "good_step e s"
  show ?case
  proof (cases "\<not> g_fatal s \<and> fst e < length (g_threads s) \<and> g_pc (g_threads s ! fst e) = G_Incr")
    case True
    have c: "g_counter ?s = wrap64 (g_counter s + 1)" using True by (simp add: good_counter_step)
    have i: "g_currentCounter (g_threads ?s ! fst e) = wrap64 (g_counter s + 1)"
      using True by (simp add: good_id_step)
    have "good_ids es ?s =
        map (\<lambda>i. wrap64 (wrap64 (g_counter s + 1) + int i)) [1..<Suc (length (good_ids es ?s))]"
      using Cons.IH [of ?s] unfolding c .
    then have "wrap64 (g_counter s + 1) # good_ids es ?s =
        map (\<lambda>i. wrap64 (g_counter s + int i)) [1..<Suc (Suc (length (good_ids es ?s)))]"
      by (rule ids_shape)
    moreover have "good_ids (e # es) s = wrap64 (g_counter s + 1) # good_ids es ?s"
      using True i by simp
    ultimately show ?thesis by (simp del: upt_Suc)
  next
    case False
    then have c: "g_counter ?s = g_counter s" by (auto simp add: good_counter_step)
    have "good_ids (e # es) s = good_ids es ?s"
      using False by auto
    then show ?thesis using Cons.IH [of ?s] unfolding c by (simp del: upt_Suc)
  qed
qed

lemma ids_increasing:
  assumes "ids = map (\<lambda>i. wrap64 (0 + int i)) [1..<Suc (length ids)]" "int (length ids) < 2 ^ 63"
  shows "sorted_wrt (<) ids \<and> distinct ids"
proof -
  have "wrap64 (0 + int i) = int i" if "i \<in> set [1..<Suc (length ids)]" for i
  proof -
    have "int i \<le> int (length ids)" using that by auto
    then have "int i < 2 ^ 63" using assms(2) by linarith
    then show ?thesis by (simp add: wrap64_id)
  qed
  then have "map (\<lambda>i. wrap64 (0 + int i)) [1..<Suc (length ids)] = map int [1..<Suc (length ids)]"
    by (intro map_cong refl)
  with assms(1) have "ids = map int [1..<Suc (length ids)]" by (rule trans)
  moreover have "sorted_wrt (<) (map int [1..<Suc (length ids)])"
    by (simp add: sorted_wrt_map del: upt_Suc)
  moreover have "distinct (map int [1..<Suc (length ids)])"
    by (simp add: distinct_map del: upt_Suc)
  ultimately show ?thesis by metis
qed

section \<open>The invariants of the server with sync.Map\<close>

lemma sync_has_map_simps [simp]:
  "\<not> sync_has_map S_Start" "\<not> sync_has_map S_Add" "\<not> sync_has_map S_Make"
  "sync_has_map S_Range" "sync_has_map S_Visit" "sync_has_map S_Sleep" "sync_has_map S_Cpu"
  "sync_has_map S_Key" "sync_has_map S_Store" "sync_has_map S_Response"
  "sync_has_map S_Encode" "sync_has_map S_Done"
  by (simp_all add: sync_has_map_def)

lemma sync_has_snapshot_simps [simp]:
  "\<not> sync_has_snapshot S_Start" "\<not> sync_has_snapshot S_Add" "\<not> sync_has_snapshot S_Make"
  "\<not> sync_has_snapshot S_Range" "\<not> sync_has_snapshot S_Visit" "sync_has_snapshot S_Sleep"
  "sync_has_snapshot S_Cpu" "sync_has_snapshot S_Key" "sync_has_snapshot S_Store"
  "sync_has_snapshot S_Response" "sync_has_snapshot S_Encode" "sync_has_snapshot S_Done"
  by (simp_all add: sync_has_snapshot_def)

lemma sync_stored_simps [simp]:
  "\<not> sync_stored S_Start" "\<not> sync_stored S_Add" "\<not> sync_stored S_Make"
  "\<not> sync_stored S_Range" "\<not> sync_stored S_Visit" "\<not> sync_stored S_Sleep"
  "\<not> sync_stored S_Cpu" "\<not> sync_stored S_Key" "\<not> sync_stored S_Store"
  "sync_stored S_Response" "sync_stored S_Encode" "sync_stored S_Done"
  by (simp_all add: sync_stored_def)

lemma sync_length_handler [simp]:
  "length (s_threads (SyncMapHandler t now th s)) = length (s_threads s)"
  by (cases "s_pc th")
    (simp_all add: SyncMapHandler_def sync_set_def split: list.split option.split)

lemma sync_length_step [simp]: "length (s_threads (sync_step e s)) = length (s_threads s)"
  by (cases e) (simp add: sync_step_def)

lemma sync_length_run [simp]: "length (s_threads (sync_run es s)) = length (s_threads s)"
  by (induction es arbitrary: s) simp_all

lemma sync_heap_init: "sync_heap_inv (sync_init n)"
  by (simp add: sync_heap_inv_def sync_init_def sync_thread0_def)

lemma sync_addr_valid:
  "sync_heap_inv s \<Longrightarrow> d < length (s_maps s) \<Longrightarrow> p \<in> set (s_maps s ! d) \<Longrightarrow>
   snd p < length (s_structs s)"
  by (simp add: sync_heap_inv_def)

lemma sync_data_valid:
  "sync_heap_inv s \<Longrightarrow> p \<in> set (s_data s) \<Longrightarrow> snd p < length (s_structs s)"
  by (simp add: sync_heap_inv_def)

lemma sync_heap_make:
  assumes inv: "sync_heap_inv s" and t: "t < length (s_threads s)"
    and pc: "s_pc (s_threads s ! t) = S_Make"
  shows "sync_heap_inv (SyncMapHandler t now (s_threads s ! t) s)"
proof -
  let ?n = "length (s_maps s)"
  let ?th = "(s_threads s ! t)\<lparr>s_dataCopy := ?n, s_pc := S_Range\<rparr>"
  let ?ths = "(s_threads s)[t := ?th]"
  have step: "SyncMapHandler t now (s_threads s ! t) s =
      sync_set t ?th (s\<lparr>s_maps := s_maps s @ [[]]\<rparr>)"
    using pc by (simp add: SyncMapHandler_def)
  have a: "\<forall>d < Suc ?n. \<forall>p \<in> set ((s_maps s @ [[]]) ! d). snd p < length (s_structs s)"
  proof (intro allI impI ballI)
    fix d p assume "d < Suc ?n" "p \<in> set ((s_maps s @ [[]]) ! d)"
    then show "snd p < length (s_structs s)"
      using sync_addr_valid [OF inv, of d p] by (cases "d = ?n") (auto simp add: nth_append)
  qed
  have b: "\<forall>d < Suc ?n. \<forall>p \<in> set ((s_maps s @ [[]]) ! d). \<forall>q \<in> set (s_data s). snd p \<noteq> snd q"
  proof (intro allI impI ballI)
    fix d p q assume d: "d < Suc ?n" "p \<in> set ((s_maps s @ [[]]) ! d)" "q \<in> set (s_data s)"
    show "snd p \<noteq> snd q"
    proof (cases "d = ?n")
      case True
      then show ?thesis using d by simp
    next
      case False
      then have "d < ?n" "p \<in> set (s_maps s ! d)" using d by (simp_all add: nth_append)
      then show ?thesis using inv d(3) by (simp add: sync_heap_inv_def)
    qed
  qed
  have old: "\<And>u. u < length (s_threads s) \<Longrightarrow> sync_has_map (s_pc (s_threads s ! u)) \<Longrightarrow>
      s_dataCopy (s_threads s ! u) < ?n"
    using inv by (simp add: sync_heap_inv_def)
  have c: "\<forall>u < length (s_threads s). sync_has_map (s_pc (?ths ! u)) \<longrightarrow>
      s_dataCopy (?ths ! u) < Suc ?n"
  proof (intro allI impI)
    fix u assume u: "u < length (s_threads s)" "sync_has_map (s_pc (?ths ! u))"
    show "s_dataCopy (?ths ! u) < Suc ?n"
      using u old [of u] t by (cases "u = t") (simp_all add: less_Suc_eq)
  qed
  have e: "\<forall>u < length (s_threads s). \<forall>v < length (s_threads s).
      sync_has_map (s_pc (?ths ! u)) \<and> sync_has_map (s_pc (?ths ! v)) \<and>
      s_dataCopy (?ths ! u) = s_dataCopy (?ths ! v) \<longrightarrow> u = v"
  proof (intro allI impI)
    fix u v assume u: "u < length (s_threads s)" and v: "v < length (s_threads s)"
      and h: "sync_has_map (s_pc (?ths ! u)) \<and> sync_has_map (s_pc (?ths ! v)) \<and>
      s_dataCopy (?ths ! u) = s_dataCopy (?ths ! v)"
    show "u = v"
    proof (cases "u = t")
      case ut: True
      show ?thesis
      proof (cases "v = t")
        case True
        then show ?thesis using ut by simp
      next
        case False
        then show ?thesis using ut h t v old [of v] by simp
      qed
    next
      case ut: False
      show ?thesis
      proof (cases "v = t")
        case True
        then show ?thesis using ut h t u old [of u] by simp
      next
        case False
        then show ?thesis using ut h u v inv by (simp add: sync_heap_inv_def)
      qed
    qed
  qed
  show ?thesis
    unfolding step using inv a b c e by (simp add: sync_heap_inv_def sync_set_def)
qed

lemma sync_heap_thread_only:
  assumes inv: "sync_heap_inv s" and t: "t < length (s_threads s)"
    and pc: "sync_has_map (s_pc th') \<longrightarrow> sync_has_map (s_pc (s_threads s ! t))"
    and dc: "s_dataCopy th' = s_dataCopy (s_threads s ! t)"
  shows "sync_heap_inv (sync_set t th' s)"
proof -
  let ?ths = "(s_threads s)[t := th']"
  have m: "\<And>u. u < length (s_threads s) \<Longrightarrow> sync_has_map (s_pc (?ths ! u)) \<Longrightarrow>
      sync_has_map (s_pc (s_threads s ! u)) \<and> s_dataCopy (?ths ! u) = s_dataCopy (s_threads s ! u)"
    using pc dc t by (simp add: nth_list_update split: if_splits)
  have c: "\<forall>u < length (s_threads s). sync_has_map (s_pc (?ths ! u)) \<longrightarrow>
      s_dataCopy (?ths ! u) < length (s_maps s)"
    using m inv by (simp add: sync_heap_inv_def)
  have e: "\<forall>u < length (s_threads s). \<forall>v < length (s_threads s).
      sync_has_map (s_pc (?ths ! u)) \<and> sync_has_map (s_pc (?ths ! v)) \<and>
      s_dataCopy (?ths ! u) = s_dataCopy (?ths ! v) \<longrightarrow> u = v"
  proof (intro allI impI)
    fix u v assume u: "u < length (s_threads s)" and v: "v < length (s_threads s)"
      and h: "sync_has_map (s_pc (?ths ! u)) \<and> sync_has_map (s_pc (?ths ! v)) \<and>
      s_dataCopy (?ths ! u) = s_dataCopy (?ths ! v)"
    have "sync_has_map (s_pc (s_threads s ! u)) \<and> sync_has_map (s_pc (s_threads s ! v)) \<and>
      s_dataCopy (s_threads s ! u) = s_dataCopy (s_threads s ! v)"
      using m [OF u] m [OF v] h by simp
    then show "u = v" using inv u v by (simp add: sync_heap_inv_def)
  qed
  show ?thesis
    using inv c e by (simp add: sync_heap_inv_def sync_set_def)
qed

lemma sync_heap_visit:
  assumes inv: "sync_heap_inv s" and t: "t < length (s_threads s)"
    and pc: "s_pc (s_threads s ! t) = S_Visit"
  shows "sync_heap_inv (SyncMapHandler t now (s_threads s ! t) s)"
proof (cases "s_todo (s_threads s ! t)")
  case Nil
  have "sync_heap_inv (sync_set t ((s_threads s ! t)\<lparr>s_pc := S_Sleep\<rparr>) s)"
    by (rule sync_heap_thread_only [OF inv t]) (simp_all add: pc)
  then show ?thesis using pc Nil by (simp add: SyncMapHandler_def)
next
  case (Cons k ks)
  let ?th = "s_threads s ! t"
  have thr: "\<And>s'. sync_heap_inv s' \<Longrightarrow> s_threads s' = s_threads s \<Longrightarrow>
      sync_heap_inv (sync_set t (?th\<lparr>s_todo := ks\<rparr>) s')"
    using t pc by (intro sync_heap_thread_only) simp_all
  show ?thesis
  proof (cases "map_of (s_data s) k")
    case None
    then show ?thesis using pc Cons thr [OF inv] by (simp add: SyncMapHandler_def)
  next
    case (Some ds)
    let ?d = "s_dataCopy ?th"
    let ?m = "AList.update k (length (s_structs s)) (s_maps s ! ?d)"
    let ?rec = "\<lparr>Identifier = Identifier (s_structs s ! ds), Name = Name (s_structs s ! ds),
        IsActive = IsActive (s_structs s ! ds), Counter = Counter (s_structs s ! ds),
        LastModified = LastModified (s_structs s ! ds)\<rparr>"
    let ?s = "s\<lparr>s_structs := s_structs s @ [?rec], s_maps := (s_maps s)[?d := ?m]\<rparr>"
    have d: "?d < length (s_maps s)" using inv t pc by (simp add: sync_heap_inv_def)
    have inm: "\<And>e p. e < length (s_maps s) \<Longrightarrow> p \<in> set ((s_maps s)[?d := ?m] ! e) \<Longrightarrow>
        p = (k, length (s_structs s)) \<or> p \<in> set (s_maps s ! e)"
    proof -
      fix e p assume e: "e < length (s_maps s)" "p \<in> set ((s_maps s)[?d := ?m] ! e)"
      show "p = (k, length (s_structs s)) \<or> p \<in> set (s_maps s ! e)"
      proof (cases "e = ?d")
        case True
        then have "p \<in> set ?m" using e by simp
        then show ?thesis using True by (auto dest: in_update_cases)
      next
        case False
        then show ?thesis using e by simp
      qed
    qed
    have a: "\<forall>p \<in> set (s_data s). snd p < Suc (length (s_structs s))"
      using sync_data_valid [OF inv] by (simp add: less_Suc_eq)
    have b: "\<forall>e < length (s_maps s). \<forall>p \<in> set ((s_maps s)[?d := ?m] ! e).
        snd p < Suc (length (s_structs s))"
    proof (intro allI impI ballI)
      fix e p assume e: "e < length (s_maps s)" "p \<in> set ((s_maps s)[?d := ?m] ! e)"
      then show "snd p < Suc (length (s_structs s))"
        using inm [OF e] sync_addr_valid [OF inv e(1), of p] by auto
    qed
    have c: "\<forall>e < length (s_maps s). \<forall>p \<in> set ((s_maps s)[?d := ?m] ! e).
        \<forall>q \<in> set (s_data s). snd p \<noteq> snd q"
    proof (intro allI impI ballI)
      fix e p q assume e: "e < length (s_maps s)" "p \<in> set ((s_maps s)[?d := ?m] ! e)"
        and q: "q \<in> set (s_data s)"
      from inm [OF e] show "snd p \<noteq> snd q"
      proof
        assume "p = (k, length (s_structs s))"
        then show ?thesis using sync_data_valid [OF inv q] by simp
      next
        assume "p \<in> set (s_maps s ! e)"
        then show ?thesis using inv e(1) q by (simp add: sync_heap_inv_def)
      qed
    qed
    have "sync_heap_inv ?s"
      using inv a b c by (simp add: sync_heap_inv_def)
    then have "sync_heap_inv (sync_set t (?th\<lparr>s_todo := ks\<rparr>) ?s)"
      by (rule thr) simp
    then show ?thesis using pc Cons Some by (simp add: SyncMapHandler_def)
  qed
qed

lemma sync_heap_store:
  assumes inv: "sync_heap_inv s" and t: "t < length (s_threads s)"
    and pc: "s_pc (s_threads s ! t) = S_Store"
  shows "sync_heap_inv (SyncMapHandler t now (s_threads s ! t) s)"
proof -
  let ?th = "s_threads s ! t"
  let ?rec = "\<lparr>Identifier = s_key ?th, Name = request_name (s_currentCounter ?th),
                   IsActive = True, Counter = s_result ?th, LastModified = now\<rparr>"
  let ?m = "AList.update (s_key ?th) (length (s_structs s)) (s_data s)"
  let ?s = "s\<lparr>s_structs := s_structs s @ [?rec], s_data := ?m\<rparr>"
  have inm: "\<And>q. q \<in> set ?m \<Longrightarrow> q = (s_key ?th, length (s_structs s)) \<or> q \<in> set (s_data s)"
    by (rule in_update_cases)
  have a: "\<forall>q \<in> set ?m. snd q < Suc (length (s_structs s))"
    using inm sync_data_valid [OF inv] by fastforce
  have b: "\<forall>e < length (s_maps s). \<forall>p \<in> set (s_maps s ! e). snd p < Suc (length (s_structs s))"
    using sync_addr_valid [OF inv] by (simp add: less_Suc_eq)
  have c: "\<forall>e < length (s_maps s). \<forall>p \<in> set (s_maps s ! e). \<forall>q \<in> set ?m. snd p \<noteq> snd q"
  proof (intro allI impI ballI)
    fix e p q assume e: "e < length (s_maps s)" "p \<in> set (s_maps s ! e)" and q: "q \<in> set ?m"
    from inm [OF q] show "snd p \<noteq> snd q"
    proof
      assume "q = (s_key ?th, length (s_structs s))"
      then show ?thesis using sync_addr_valid [OF inv e] by simp
    next
      assume "q \<in> set (s_data s)"
      then show ?thesis using inv e by (simp add: sync_heap_inv_def)
    qed
  qed
  have "sync_heap_inv ?s"
    using inv a b c by (simp add: sync_heap_inv_def)
  then have "sync_heap_inv (sync_set t (?th\<lparr>s_pc := S_Response\<rparr>) ?s)"
    using t pc by (intro sync_heap_thread_only) simp_all
  then show ?thesis using pc by (simp add: SyncMapHandler_def)
qed

lemma sync_heap_handler:
  assumes inv: "sync_heap_inv s" and t: "t < length (s_threads s)"
  shows "sync_heap_inv (SyncMapHandler t now (s_threads s ! t) s)"
proof (cases "s_pc (s_threads s ! t)")
  case S_Make
  then show ?thesis by (rule sync_heap_make [OF inv t])
next
  case S_Visit
  then show ?thesis by (rule sync_heap_visit [OF inv t])
next
  case S_Store
  then show ?thesis by (rule sync_heap_store [OF inv t])
next
  case S_Start
  then show ?thesis
    using sync_heap_thread_only [OF inv t, of "(s_threads s ! t)\<lparr>s_start := now, s_pc := S_Add\<rparr>"]
    by (simp add: SyncMapHandler_def)
next
  case S_Add
  have "sync_heap_inv (s\<lparr>s_counter := wrap64 (s_counter s + 1)\<rparr>)"
    using inv by (simp add: sync_heap_inv_def)
  then show ?thesis
    using S_Add t sync_heap_thread_only [of "s\<lparr>s_counter := wrap64 (s_counter s + 1)\<rparr>" t
        "(s_threads s ! t)\<lparr>s_currentCounter := wrap64 (s_counter s + 1), s_pc := S_Make\<rparr>"]
    by (simp add: SyncMapHandler_def)
next
  case S_Range
  then show ?thesis
    using sync_heap_thread_only [OF inv t,
        of "(s_threads s ! t)\<lparr>s_todo := map fst (s_data s), s_pc := S_Visit\<rparr>"]
    by (simp add: SyncMapHandler_def)
next
  case S_Sleep
  then show ?thesis
    using sync_heap_thread_only [OF inv t, of "(s_threads s ! t)\<lparr>s_pc := S_Cpu\<rparr>"]
    by (simp add: SyncMapHandler_def)
next
  case S_Cpu
  then show ?thesis
    using sync_heap_thread_only [OF inv t,
        of "(s_threads s ! t)\<lparr>s_result := cpu_loop 0 0, s_pc := S_Key\<rparr>"]
    by (simp add: SyncMapHandler_def)
next
  case S_Key
  then show ?thesis
    using sync_heap_thread_only [OF inv t,
        of "(s_threads s ! t)\<lparr>s_key := request_key (s_currentCounter (s_threads s ! t)),
              s_pc := S_Store\<rparr>"]
    by (simp add: SyncMapHandler_def)
next
  case S_Response
  then show ?thesis
    using sync_heap_thread_only [OF inv t,
        of "(s_threads s ! t)\<lparr>s_response :=
                  \<lparr>method_name = ''sync_map'', counter = s_currentCounter (s_threads s ! t),
                   result = s_result (s_threads s ! t),
                   duration = Since_Microseconds now (s_start (s_threads s ! t))\<rparr>,
                s_pc := S_Encode\<rparr>"]
    by (simp add: SyncMapHandler_def)
next
  case S_Encode
  have "sync_heap_inv (s\<lparr>s_out := s_out s @ [(t, s_response (s_threads s ! t))]\<rparr>)"
    using inv by (simp add: sync_heap_inv_def)
  then show ?thesis
    using S_Encode t
      sync_heap_thread_only [of "s\<lparr>s_out := s_out s @ [(t, s_response (s_threads s ! t))]\<rparr>" t
        "(s_threads s ! t)\<lparr>s_pc := S_Done\<rparr>"]
    by (simp add: SyncMapHandler_def)
next
  case S_Done
  then show ?thesis using inv by (simp add: SyncMapHandler_def)
qed

lemma sync_has_result_simps [simp]:
  "\<not> sync_has_result S_Start" "\<not> sync_has_result S_Add" "\<not> sync_has_result S_Make"
  "\<not> sync_has_result S_Range" "\<not> sync_has_result S_Visit" "\<not> sync_has_result S_Sleep"
  "\<not> sync_has_result S_Cpu" "sync_has_result S_Key" "sync_has_result S_Store"
  "sync_has_result S_Response" "sync_has_result S_Encode" "sync_has_result S_Done"
  by (simp_all add: sync_has_result_def)

lemma sync_has_key_simps [simp]:
  "\<not> sync_has_key S_Start" "\<not> sync_has_key S_Add" "\<not> sync_has_key S_Make"
  "\<not> sync_has_key S_Range" "\<not> sync_has_key S_Visit" "\<not> sync_has_key S_Sleep"
  "\<not> sync_has_key S_Cpu" "\<not> sync_has_key S_Key" "sync_has_key S_Store"
  "sync_has_key S_Response" "sync_has_key S_Encode" "sync_has_key S_Done"
  by (simp_all add: sync_has_key_def)

lemma sync_rec_init: "sync_rec_inv (sync_init n)"
  by (simp add: sync_rec_inv_def sync_init_def sync_thread0_def sync_local_def)

lemma sync_rec_visit:
  assumes inv: "sync_rec_inv s" and h: "sync_heap_inv s" and t: "t < length (s_threads s)"
    and pc: "s_pc (s_threads s ! t) = S_Visit"
  shows "sync_rec_inv (SyncMapHandler t now (s_threads s ! t) s)"
proof -
  have old: "\<And>p r. p \<in> set (s_data s) \<Longrightarrow> record_ok (fst p) ((s_structs s @ [r]) ! snd p)"
    using inv sync_data_valid [OF h] by (simp add: sync_rec_inv_def nth_append)
  have loc: "\<And>u. u < length (s_threads s) \<Longrightarrow> sync_local (s_threads s ! u)"
    using inv by (simp add: sync_rec_inv_def)
  show ?thesis
    using pc t loc old inv
    by (auto simp add: SyncMapHandler_def sync_set_def sync_rec_inv_def nth_list_update
        sync_local_def split: list.split option.split)
qed

lemma sync_rec_store:
  assumes inv: "sync_rec_inv s" and h: "sync_heap_inv s" and t: "t < length (s_threads s)"
    and pc: "s_pc (s_threads s ! t) = S_Store"
  shows "sync_rec_inv (SyncMapHandler t now (s_threads s ! t) s)"
proof -
  let ?th = "s_threads s ! t"
  let ?rec = "\<lparr>Identifier = s_key ?th, Name = request_name (s_currentCounter ?th),
                   IsActive = True, Counter = s_result ?th, LastModified = now\<rparr>"
  let ?m = "AList.update (s_key ?th) (length (s_structs s)) (s_data s)"
  have step: "SyncMapHandler t now ?th s =
      sync_set t (?th\<lparr>s_pc := S_Response\<rparr>) (s\<lparr>s_structs := s_structs s @ [?rec], s_data := ?m\<rparr>)"
    using pc by (simp add: SyncMapHandler_def)
  have loc: "sync_local ?th" using inv t by (simp add: sync_rec_inv_def)
  have ok: "record_ok (s_key ?th) ?rec"
    using loc pc by (auto simp add: sync_local_def record_ok_def)
  have a: "\<forall>u < length (s_threads s). sync_local ((s_threads s)[t := ?th\<lparr>s_pc := S_Response\<rparr>] ! u)"
    using inv t pc by (auto simp add: sync_rec_inv_def nth_list_update sync_local_def)
  have b: "\<forall>p \<in> set ?m. record_ok (fst p) ((s_structs s @ [?rec]) ! snd p)"
  proof
    fix p assume "p \<in> set ?m"
    then have "p = (s_key ?th, length (s_structs s)) \<or> p \<in> set (s_data s)"
      by (rule in_update_cases)
    then show "record_ok (fst p) ((s_structs s @ [?rec]) ! snd p)"
    proof
      assume "p = (s_key ?th, length (s_structs s))"
      then show ?thesis using ok by simp
    next
      assume p: "p \<in> set (s_data s)"
      then have "snd p < length (s_structs s)" using sync_data_valid [OF h] by simp
      then show ?thesis using inv p by (simp add: sync_rec_inv_def nth_append)
    qed
  qed
  show ?thesis
    unfolding step using a b by (simp add: sync_rec_inv_def sync_set_def)
qed

lemma sync_rec_handler:
  assumes inv: "sync_rec_inv s" and h: "sync_heap_inv s" and t: "t < length (s_threads s)"
  shows "sync_rec_inv (SyncMapHandler t now (s_threads s ! t) s)"
proof (cases "s_pc (s_threads s ! t) = S_Visit \<or> s_pc (s_threads s ! t) = S_Store")
  case True
  then show ?thesis using sync_rec_visit [OF inv h t] sync_rec_store [OF inv h t] by blast
next
  case False
  then show ?thesis
    using inv t
    by (cases "s_pc (s_threads s ! t)")
      (auto simp add: SyncMapHandler_def sync_set_def sync_rec_inv_def nth_list_update
        sync_local_def cpu_loop_result)
qed

lemma sync_inv_init: "sync_inv (sync_init n)"
  by (simp add: sync_inv_def sync_heap_init sync_rec_init)

lemma sync_inv_step: "sync_inv s \<Longrightarrow> sync_inv (sync_step e s)"
  by (cases e) (simp add: sync_step_def sync_inv_def sync_heap_handler sync_rec_handler)

lemma sync_inv_run: "sync_inv s \<Longrightarrow> sync_inv (sync_run es s)"
  by (induction es arbitrary: s) (simp_all add: sync_inv_step)

lemma sync_keeps_refl: "sync_keeps d s s"
  by (simp add: sync_keeps_def)

lemma sync_keeps_trans:
  assumes "sync_keeps d s s'" "sync_keeps d s' s''"
  shows "sync_keeps d s s''"
proof -
  obtain ys where ys: "s_structs s' = s_structs s @ ys"
    using assms(1) unfolding sync_keeps_def by blast
  obtain zs where zs: "s_structs s'' = s_structs s' @ zs"
    using assms(2) unfolding sync_keeps_def by blast
  have "s_structs s'' = s_structs s @ (ys @ zs)" using ys zs by simp
  moreover have "s_maps s'' ! d = s_maps s ! d"
    using assms unfolding sync_keeps_def by simp
  ultimately show ?thesis unfolding sync_keeps_def by blast
qed

lemma sync_keys_handler: "fst ` set (s_data s) \<subseteq> fst ` set (s_data (SyncMapHandler t now th s))"
  by (cases "s_pc th")
    (auto simp add: SyncMapHandler_def sync_set_def dom_update split: list.split option.split)

lemma sync_keys_step: "fst ` set (s_data s) \<subseteq> fst ` set (s_data (sync_step e s))"
  by (cases e) (simp add: sync_step_def sync_keys_handler)

lemma sync_keys_run: "fst ` set (s_data s) \<subseteq> fst ` set (s_data (sync_run es s))"
proof (induction es arbitrary: s)
  case Nil
  then show ?case by simp
next
  case (Cons e es)
  show ?case
    using sync_keys_step [of s e] Cons.IH [of "sync_step e s"] by simp
qed

lemma sync_other_thread:
  "u \<noteq> t \<Longrightarrow> s_threads (SyncMapHandler u now th s) ! t = s_threads s ! t"
  by (cases "s_pc th")
    (simp_all add: SyncMapHandler_def sync_set_def split: list.split option.split)

lemma sync_frame_handler:
  assumes h: "sync_heap_inv s" and t: "t < length (s_threads s)" and u: "u < length (s_threads s)"
    and snap: "sync_has_snapshot (s_pc (s_threads s ! t))"
  shows "sync_keeps (s_dataCopy (s_threads s ! t)) s (SyncMapHandler u now (s_threads s ! u) s) \<and>
         sync_has_snapshot (s_pc (s_threads (SyncMapHandler u now (s_threads s ! u) s) ! t)) \<and>
         s_dataCopy (s_threads (SyncMapHandler u now (s_threads s ! u) s) ! t) =
         s_dataCopy (s_threads s ! t)"
proof (cases "u = t")
  case True
  then show ?thesis
    using snap t
    by (cases "s_pc (s_threads s ! t)")
      (simp_all add: SyncMapHandler_def sync_set_def sync_keeps_def)
next
  case False
  have hm: "sync_has_map (s_pc (s_threads s ! t))"
    using snap by (simp add: sync_has_snapshot_def sync_has_map_def)
  have d: "s_dataCopy (s_threads s ! t) < length (s_maps s)"
    using h t hm by (simp add: sync_heap_inv_def)
  have ne: "sync_has_map (s_pc (s_threads s ! u)) \<Longrightarrow>
      s_dataCopy (s_threads s ! u) \<noteq> s_dataCopy (s_threads s ! t)"
    using h t u hm False unfolding sync_heap_inv_def by blast
  have "sync_keeps (s_dataCopy (s_threads s ! t)) s (SyncMapHandler u now (s_threads s ! u) s)"
    using d ne
    by (cases "s_pc (s_threads s ! u)")
      (simp_all add: SyncMapHandler_def sync_set_def sync_keeps_def nth_append
        split: list.split option.split)
  then show ?thesis
    using snap by (simp add: sync_other_thread [OF False])
qed

lemma sync_frame_run:
  assumes "sync_inv s" "t < length (s_threads s)" "sync_has_snapshot (s_pc (s_threads s ! t))"
  shows "sync_keeps (s_dataCopy (s_threads s ! t)) s (sync_run es s) \<and>
         sync_has_snapshot (s_pc (s_threads (sync_run es s) ! t)) \<and>
         s_dataCopy (s_threads (sync_run es s) ! t) = s_dataCopy (s_threads s ! t)"
  using assms
proof (induction es arbitrary: s)
  case Nil
  then show ?case by (simp add: sync_keeps_refl)
next
  case (Cons e es)
  let ?s = "sync_step e s"
  let ?d = "s_dataCopy (s_threads s ! t)"
  have h: "sync_heap_inv s" using Cons.prems(1) by (simp add: sync_inv_def)
  have st: "sync_keeps ?d s ?s \<and> sync_has_snapshot (s_pc (s_threads ?s ! t)) \<and>
      s_dataCopy (s_threads ?s ! t) = ?d"
  proof (cases e)
    case (Pair u now)
    show ?thesis
    proof (cases "u < length (s_threads s)")
      case True
      then show ?thesis
        using sync_frame_handler [OF h Cons.prems(2) True Cons.prems(3), of now]
        by (simp add: Pair sync_step_def)
    next
      case False
      then show ?thesis using Cons.prems(3) by (simp add: Pair sync_step_def sync_keeps_refl)
    qed
  qed
  have "sync_keeps (s_dataCopy (s_threads ?s ! t)) ?s (sync_run es ?s) \<and>
      sync_has_snapshot (s_pc (s_threads (sync_run es ?s) ! t)) \<and>
      s_dataCopy (s_threads (sync_run es ?s) ! t) = s_dataCopy (s_threads ?s ! t)"
    using Cons.prems st by (intro Cons.IH sync_inv_step) simp_all
  then show ?case
    using st sync_keeps_trans [of ?d s ?s "sync_run es ?s"] by simp
qed

lemma sync_view_kept:
  assumes e: "sync_keeps d s s'" and h: "sync_heap_inv s" and d: "d < length (s_maps s)"
  shows "sync_view s' d = sync_view s d"
proof -
  obtain ys where ys: "s_structs s' = s_structs s @ ys"
    using e unfolding sync_keeps_def by blast
  have m: "s_maps s' ! d = s_maps s ! d" using e by (simp add: sync_keeps_def)
  have "\<And>p. p \<in> set (s_maps s ! d) \<Longrightarrow> s_structs s' ! snd p = s_structs s ! snd p"
    using sync_addr_valid [OF h d] by (simp add: ys nth_append)
  then have "map (\<lambda>(k, a). (k, s_structs s' ! a)) (s_maps s ! d) =
             map (\<lambda>(k, a). (k, s_structs s ! a)) (s_maps s ! d)"
    by (intro map_cong) auto
  then show ?thesis by (simp add: sync_view_def m)
qed

lemma sync_keys_init: "sync_keys_inv (sync_init n)"
  by (auto simp add: sync_keys_inv_def sync_init_def sync_thread0_def sync_keyed_def)

lemma sync_keys_local:
  assumes k: "sync_keys_inv s" and t: "t < length (s_threads s)"
    and q: "\<And>k. sync_keyed th' k = sync_keyed (s_threads s ! t) k"
  shows "sync_keys_inv (sync_set t th' s)"
  using k unfolding sync_keys_inv_def sync_set_def
  by (simp add: ex_update_keep [of t "s_threads s" sync_keyed th', OF t q])

lemma sync_keys_shared:
  "s_data (s' :: sync_sys) = s_data s \<Longrightarrow> s_threads s' = s_threads s \<Longrightarrow> sync_keys_inv s \<Longrightarrow>
   sync_keys_inv s'"
  by (simp add: sync_keys_inv_def)

lemma sync_keys_inv_handler:
  assumes k: "sync_keys_inv s" and inv: "sync_inv s" and t: "t < length (s_threads s)"
  shows "sync_keys_inv (SyncMapHandler t now (s_threads s ! t) s)"
proof -
  let ?th = "s_threads s ! t"
  have loc: "sync_local ?th" using inv t by (simp add: sync_inv_def sync_rec_inv_def)
  have thr: "\<And>(s' :: sync_sys) th'. s_data s' = s_data s \<Longrightarrow> s_threads s' = s_threads s \<Longrightarrow>
      (\<And>k. sync_keyed th' k = sync_keyed ?th k) \<Longrightarrow> sync_keys_inv (sync_set t th' s')"
  proof -
    fix s' :: sync_sys and th' assume a: "s_data s' = s_data s" "s_threads s' = s_threads s"
      and q: "\<And>k. sync_keyed th' k = sync_keyed ?th k"
    have "sync_keys_inv s'" using a k by (rule sync_keys_shared)
    then show "sync_keys_inv (sync_set t th' s')"
      using t q a by (intro sync_keys_local) simp_all
  qed
  show ?thesis
  proof (cases "s_pc ?th")
    case S_Store
    let ?m = "AList.update (s_key ?th) (length (s_structs s)) (s_data s)"
    have key: "s_key ?th = request_key (s_currentCounter ?th)"
      using loc S_Store by (simp add: sync_local_def)
    have n: "\<And>k. \<not> sync_keyed ?th k" using S_Store by (simp add: sync_keyed_def)
    have e: "\<And>k. (\<exists>u < length (s_threads s). sync_keyed ((s_threads s)[t := ?th\<lparr>s_pc := S_Response\<rparr>] ! u) k) =
        (sync_keyed (?th\<lparr>s_pc := S_Response\<rparr>) k \<or> (\<exists>u < length (s_threads s). sync_keyed (s_threads s ! u) k))"
      by (rule ex_update_new [of t "s_threads s" sync_keyed, OF t n])
    have "distinct (map fst ?m)"
      using k by (simp add: sync_keys_inv_def distinct_update)
    moreover have "\<And>k. (k \<in> fst ` set ?m) =
        (\<exists>u < length (s_threads s). sync_keyed ((s_threads s)[t := ?th\<lparr>s_pc := S_Response\<rparr>] ! u) k)"
      using k unfolding e sync_keys_inv_def
      by (auto simp add: dom_update sync_keyed_def key)
    ultimately show ?thesis
      using S_Store unfolding sync_keys_inv_def
      by (simp add: SyncMapHandler_def sync_set_def)
  next
    case S_Visit
    show ?thesis
    proof (cases "s_todo ?th")
      case Nil
      then show ?thesis
        using S_Visit thr [of s "?th\<lparr>s_pc := S_Sleep\<rparr>"]
        by (simp add: SyncMapHandler_def sync_keyed_def)
    next
      case (Cons k' ks)
      show ?thesis
      proof (cases "map_of (s_data s) k'")
        case None
        then show ?thesis
          using S_Visit Cons thr [of s "?th\<lparr>s_todo := ks\<rparr>"]
          by (simp add: SyncMapHandler_def sync_keyed_def)
      next
        case (Some ds)
        then show ?thesis
          using S_Visit Cons
            thr [of "s\<lparr>s_structs := s_structs s @
                         [\<lparr>Identifier = Identifier (s_structs s ! ds),
                           Name = Name (s_structs s ! ds),
                           IsActive = IsActive (s_structs s ! ds),
                           Counter = Counter (s_structs s ! ds),
                           LastModified = LastModified (s_structs s ! ds)\<rparr>],
                       s_maps := (s_maps s)[s_dataCopy ?th :=
                           AList.update k' (length (s_structs s)) (s_maps s ! s_dataCopy ?th)]\<rparr>"
                 "?th\<lparr>s_todo := ks\<rparr>"]
          by (simp add: SyncMapHandler_def sync_keyed_def)
      qed
    qed
  next
    case S_Start
    then show ?thesis
      using thr [of s "?th\<lparr>s_start := now, s_pc := S_Add\<rparr>"]
      by (simp add: SyncMapHandler_def sync_keyed_def)
  next
    case S_Add
    then show ?thesis
      using thr [of "s\<lparr>s_counter := wrap64 (s_counter s + 1)\<rparr>"
          "?th\<lparr>s_currentCounter := wrap64 (s_counter s + 1), s_pc := S_Make\<rparr>"]
      by (simp add: SyncMapHandler_def sync_keyed_def)
  next
    case S_Make
    then show ?thesis
      using thr [of "s\<lparr>s_maps := s_maps s @ [[]]\<rparr>"
          "?th\<lparr>s_dataCopy := length (s_maps s), s_pc := S_Range\<rparr>"]
      by (simp add: SyncMapHandler_def sync_keyed_def)
  next
    case S_Range
    then show ?thesis
      using thr [of s "?th\<lparr>s_todo := map fst (s_data s), s_pc := S_Visit\<rparr>"]
      by (simp add: SyncMapHandler_def sync_keyed_def)
  next
    case S_Sleep
    then show ?thesis
      using thr [of s "?th\<lparr>s_pc := S_Cpu\<rparr>"]
      by (simp add: SyncMapHandler_def sync_keyed_def)
  next
    case S_Cpu
    then show ?thesis
      using thr [of s "?th\<lparr>s_result := cpu_loop 0 0, s_pc := S_Key\<rparr>"]
      by (simp add: SyncMapHandler_def sync_keyed_def)
  next
    case S_Key
    then show ?thesis
      using thr [of s "?th\<lparr>s_key := request_key (s_currentCounter ?th), s_pc := S_Store\<rparr>"]
      by (simp add: SyncMapHandler_def sync_keyed_def)
  next
    case S_Response
    then show ?thesis
      using thr [of s "?th\<lparr>s_response :=
                  \<lparr>method_name = ''sync_map'', counter = s_currentCounter ?th,
                   result = s_result ?th, duration = Since_Microseconds now (s_start ?th)\<rparr>,
                s_pc := S_Encode\<rparr>"]
      by (simp add: SyncMapHandler_def sync_keyed_def)
  next
    case S_Encode
    then show ?thesis
      using thr [of "s\<lparr>s_out := s_out s @ [(t, s_response ?th)]\<rparr>" "?th\<lparr>s_pc := S_Done\<rparr>"]
      by (simp add: SyncMapHandler_def sync_keyed_def)
  next
    case S_Done
    then show ?thesis using k by (simp add: SyncMapHandler_def)
  qed
qed

lemma sync_inv2_init: "sync_inv2 (sync_init n)"
  by (simp add: sync_inv2_def sync_inv_init sync_keys_init)

lemma sync_inv2_step:
  assumes "sync_inv2 s"
  shows "sync_inv2 (sync_step e s)"
proof -
  have "sync_keys_inv (sync_step e s)"
    using assms by (cases e) (simp add: sync_inv2_def sync_step_def sync_keys_inv_handler)
  then show ?thesis using assms by (simp add: sync_inv2_def sync_inv_step)
qed

lemma sync_inv2_run: "sync_inv2 s \<Longrightarrow> sync_inv2 (sync_run es s)"
  by (induction es arbitrary: s) (simp_all add: sync_inv2_step)

lemma sync_reachable: "sync_inv2 (sync_run sched (sync_init n))"
  by (intro sync_inv2_run sync_inv2_init)

lemma sync_run_append: "sync_run (es @ fs) s = sync_run fs (sync_run es s)"
  by (induction es arbitrary: s) simp_all

lemma sync_count:
  assumes "sync_keys_inv s"
    and "distinct (map s_currentCounter (filter (\<lambda>th. sync_stored (s_pc th)) (s_threads s)))"
  shows "snd (sync_stats s) = int (length (filter (\<lambda>th. sync_stored (s_pc th)) (s_threads s)))"
  using count_keys [of "s_data s" "s_threads s" "\<lambda>th. sync_stored (s_pc th)"
      s_currentCounter] assms
  by (simp add: sync_keys_inv_def sync_stats_def sync_keyed_def)

lemma sync_store_effect:
  assumes inv: "sync_inv s" and t: "t < length (s_threads s)"
    and pc: "s_pc (s_threads s ! t) = S_Store"
  shows "s_structs (sync_step (t, now) s) =
           s_structs s @
           [\<lparr>Identifier = request_key (s_currentCounter (s_threads s ! t)),
             Name = request_name (s_currentCounter (s_threads s ! t)), IsActive = True,
             Counter = 499999500000, LastModified = now\<rparr>] \<and>
         s_data (sync_step (t, now) s) =
           AList.update (request_key (s_currentCounter (s_threads s ! t)))
             (length (s_structs s)) (s_data s) \<and>
         s_maps (sync_step (t, now) s) = s_maps s \<and>
         (\<forall>p \<in> set (s_data s). snd p \<noteq> length (s_structs s)) \<and>
         (\<forall>d < length (s_maps s). \<forall>p \<in> set (s_maps s ! d). snd p \<noteq> length (s_structs s))"
proof -
  have loc: "sync_local (s_threads s ! t)" using inv t by (simp add: sync_inv_def sync_rec_inv_def)
  have h: "sync_heap_inv s" using inv by (simp add: sync_inv_def)
  have "\<forall>d < length (s_maps s). \<forall>p \<in> set (s_maps s ! d). snd p \<noteq> length (s_structs s)"
    using sync_addr_valid [OF h] by fastforce
  moreover have "\<forall>p \<in> set (s_data s). snd p \<noteq> length (s_structs s)"
    using sync_data_valid [OF h] by fastforce
  ultimately show ?thesis
    using loc t pc by (simp add: sync_step_def SyncMapHandler_def sync_set_def sync_local_def)
qed

lemma sync_other_steps:
  assumes "s_pc (s_threads s ! t) \<noteq> S_Store"
  shows "s_data (sync_step (t, now) s) = s_data s"
  using assms
  by (cases "s_pc (s_threads s ! t)")
    (simp_all add: sync_step_def SyncMapHandler_def sync_set_def split: list.split option.split)

lemma sync_counter_step:
  "s_counter (sync_step e s) =
     (if fst e < length (s_threads s) \<and> s_pc (s_threads s ! fst e) = S_Add
      then wrap64 (s_counter s + 1) else s_counter s)"
  by (cases e; cases "s_pc (s_threads s ! fst e)")
    (simp_all add: sync_step_def SyncMapHandler_def sync_set_def split: list.split option.split)

lemma sync_id_step:
  "fst e < length (s_threads s) \<Longrightarrow> s_pc (s_threads s ! fst e) = S_Add \<Longrightarrow>
   s_currentCounter (s_threads (sync_step e s) ! fst e) = wrap64 (s_counter s + 1)"
  by (cases e) (simp add: sync_step_def SyncMapHandler_def sync_set_def)

lemma sync_ids_eq:
  "sync_ids es s =
     map (\<lambda>i. wrap64 (s_counter s + int i)) [1..<Suc (length (sync_ids es s))]"
proof (induction es arbitrary: s)
  case Nil
  then show ?case by simp
next
  case (Cons e es)
  let ?s = "sync_step e s"
  show ?case
  proof (cases "fst e < length (s_threads s) \<and> s_pc (s_threads s ! fst e) = S_Add")
    case True
    have c: "s_counter ?s = wrap64 (s_counter s + 1)" using True by (simp add: sync_counter_step)
    have i: "s_currentCounter (s_threads ?s ! fst e) = wrap64 (s_counter s + 1)"
      using True by (simp add: sync_id_step)
    have "sync_ids es ?s =
        map (\<lambda>i. wrap64 (wrap64 (s_counter s + 1) + int i)) [1..<Suc (length (sync_ids es ?s))]"
      using Cons.IH [of ?s] unfolding c .
    then have "wrap64 (s_counter s + 1) # sync_ids es ?s =
        map (\<lambda>i. wrap64 (s_counter s + int i)) [1..<Suc (Suc (length (sync_ids es ?s)))]"
      by (rule ids_shape)
    moreover have "sync_ids (e # es) s = wrap64 (s_counter s + 1) # sync_ids es ?s"
      using True i by simp
    ultimately show ?thesis by (simp del: upt_Suc)
  next
    case False
    then have c: "s_counter ?s = s_counter s" by (auto simp add: sync_counter_step)
    have "sync_ids (e # es) s = sync_ids es ?s"
      using False by auto
    then show ?thesis using Cons.IH [of ?s] unfolding c by (simp del: upt_Suc)
  qed
qed

section \<open>The data of the server with the deferred unlock\<close>

lemma bad_stored_simps [simp]:
  "\<not> bad_stored B_Start" "\<not> bad_stored B_Lock" "\<not> bad_stored B_Incr" "\<not> bad_stored B_Copy"
  "\<not> bad_stored B_Sleep" "\<not> bad_stored B_Cpu" "\<not> bad_stored B_Write" "bad_stored B_Response"
  "bad_stored B_Encode" "bad_stored B_Unlock" "bad_stored B_Done"
  by (simp_all add: bad_stored_def)

lemma bad_has_result_simps [simp]:
  "\<not> bad_has_result B_Start" "\<not> bad_has_result B_Lock" "\<not> bad_has_result B_Incr"
  "\<not> bad_has_result B_Copy" "\<not> bad_has_result B_Sleep" "\<not> bad_has_result B_Cpu"
  "bad_has_result B_Write" "bad_has_result B_Response" "bad_has_result B_Encode"
  "bad_has_result B_Unlock" "bad_has_result B_Done"
  by (simp_all add: bad_has_result_def)

lemma bad_data_init: "bad_data_inv (bad_init n)"
  by (auto simp add: bad_data_inv_def bad_init_def bad_thread0_def bad_keyed_def)

lemma bad_data_local:
  assumes k: "bad_data_inv s" and t: "t < length (b_threads s)"
    and d: "b_data (s' :: bad_sys) = b_data s" and ths: "b_threads s' = b_threads s"
    and q: "\<And>k. bad_keyed th' k = bad_keyed (b_threads s ! t) k"
    and r: "bad_has_result (b_pc th') \<longrightarrow> b_result th' = 499999500000"
  shows "bad_data_inv (bad_set t th' s')"
proof -
  have "\<forall>u < length (b_threads s). bad_has_result (b_pc ((b_threads s)[t := th'] ! u)) \<longrightarrow>
           b_result ((b_threads s)[t := th'] ! u) = 499999500000"
    using k r t by (simp add: bad_data_inv_def nth_list_update)
  then show ?thesis
    using k unfolding bad_data_inv_def bad_set_def
    by (simp add: d ths ex_update_keep [of t "b_threads s" bad_keyed th', OF t q])
qed

lemma bad_data_handler:
  assumes k: "bad_data_inv s" and t: "t < length (b_threads s)"
  shows "bad_data_inv (BadHandler t now (b_threads s ! t) s)"
proof -
  let ?th = "b_threads s ! t"
  have res: "bad_has_result (b_pc ?th) \<longrightarrow> b_result ?th = 499999500000"
    using k t by (simp add: bad_data_inv_def)
  show ?thesis
  proof (cases "b_pc ?th")
    case B_Write
    let ?m = "AList.update (request_key (b_currentCounter ?th)) (b_result ?th) (b_data s)"
    let ?ths = "(b_threads s)[t := ?th\<lparr>b_pc := B_Response\<rparr>]"
    have n: "\<And>k. \<not> bad_keyed ?th k" using B_Write by (simp add: bad_keyed_def)
    have e: "\<And>k. (\<exists>u < length (b_threads s). bad_keyed (?ths ! u) k) =
        (bad_keyed (?th\<lparr>b_pc := B_Response\<rparr>) k \<or> (\<exists>u < length (b_threads s). bad_keyed (b_threads s ! u) k))"
      by (rule ex_update_new [of t "b_threads s" bad_keyed, OF t n])
    have a: "distinct (map fst ?m)"
      using k by (simp add: bad_data_inv_def distinct_update)
    have b: "\<And>k. (k \<in> fst ` set ?m) = (\<exists>u < length (b_threads s). bad_keyed (?ths ! u) k)"
      using k unfolding e bad_data_inv_def
      by (auto simp add: dom_update bad_keyed_def)
    have c: "\<forall>u < length (b_threads s). bad_has_result (b_pc (?ths ! u)) \<longrightarrow>
           b_result (?ths ! u) = 499999500000"
      using k res t B_Write by (simp add: bad_data_inv_def nth_list_update)
    have d: "\<forall>p \<in> set ?m. snd p = 499999500000"
    proof
      fix p assume "p \<in> set ?m"
      then have "p = (request_key (b_currentCounter ?th), b_result ?th) \<or> p \<in> set (b_data s)"
        by (rule in_update_cases)
      then show "snd p = 499999500000"
        using res B_Write k by (auto simp add: bad_data_inv_def)
    qed
    show ?thesis
      using B_Write a b c d unfolding bad_data_inv_def
      by (simp add: BadHandler_def bad_set_def)
  next
    case B_Start
    then show ?thesis
      using bad_data_local [OF k t, of s "?th\<lparr>b_start := now, b_pc := B_Lock\<rparr>"]
      by (simp add: BadHandler_def bad_keyed_def)
  next
    case B_Lock
    show ?thesis
    proof (cases "b_mu s")
      case None
      then show ?thesis
        using B_Lock bad_data_local [OF k t, of "s\<lparr>b_mu := Some t\<rparr>" "?th\<lparr>b_pc := B_Incr\<rparr>"]
        by (simp add: BadHandler_def bad_keyed_def)
    next
      case (Some h)
      then show ?thesis using B_Lock k by (simp add: BadHandler_def)
    qed
  next
    case B_Incr
    then show ?thesis
      using bad_data_local [OF k t, of "s\<lparr>b_counter := wrap64 (b_counter s + 1)\<rparr>"
          "?th\<lparr>b_currentCounter := wrap64 (b_counter s + 1), b_pc := B_Copy\<rparr>"]
      by (simp add: BadHandler_def bad_keyed_def)
  next
    case B_Copy
    then show ?thesis
      using bad_data_local [OF k t, of s "?th\<lparr>b_dataCopy := bad_copy (b_data s) [], b_pc := B_Sleep\<rparr>"]
      by (simp add: BadHandler_def bad_keyed_def)
  next
    case B_Sleep
    then show ?thesis
      using bad_data_local [OF k t, of s "?th\<lparr>b_pc := B_Cpu\<rparr>"]
      by (simp add: BadHandler_def bad_keyed_def)
  next
    case B_Cpu
    then show ?thesis
      using bad_data_local [OF k t, of s "?th\<lparr>b_result := cpu_loop 0 0, b_pc := B_Write\<rparr>"]
      by (simp add: BadHandler_def bad_keyed_def cpu_loop_result)
  next
    case B_Response
    then show ?thesis
      using res bad_data_local [OF k t, of s
          "?th\<lparr>b_response :=
                  \<lparr>method_name = ''bad_defer'', counter = b_currentCounter ?th, result = b_result ?th,
                   duration = Since_Microseconds now (b_start ?th)\<rparr>,
                b_pc := B_Encode\<rparr>"]
      by (simp add: BadHandler_def bad_keyed_def)
  next
    case B_Encode
    then show ?thesis
      using res bad_data_local [OF k t, of "s\<lparr>b_out := b_out s @ [(t, b_response ?th)]\<rparr>"
          "?th\<lparr>b_pc := B_Unlock\<rparr>"]
      by (simp add: BadHandler_def bad_keyed_def)
  next
    case B_Unlock
    show ?thesis
    proof (cases "b_mu s")
      case None
      then show ?thesis using B_Unlock k by (simp add: BadHandler_def bad_data_inv_def)
    next
      case (Some h)
      then show ?thesis
        using B_Unlock res bad_data_local [OF k t, of "s\<lparr>b_mu := None\<rparr>" "?th\<lparr>b_pc := B_Done\<rparr>"]
        by (simp add: BadHandler_def bad_keyed_def)
    qed
  next
    case B_Done
    then show ?thesis using k by (simp add: BadHandler_def)
  qed
qed

lemma bad_data_step: "bad_data_inv s \<Longrightarrow> bad_data_inv (bad_step e s)"
  by (cases e) (simp add: bad_step_def bad_data_handler)

lemma bad_data_run: "bad_data_inv s \<Longrightarrow> bad_data_inv (bad_run es s)"
  by (induction es arbitrary: s) (simp_all add: bad_data_step)

lemma bad_count:
  assumes "bad_data_inv s"
    and "distinct (map b_currentCounter (filter (\<lambda>th. bad_stored (b_pc th)) (b_threads s)))"
  shows "snd (bad_stats s) = int (length (filter (\<lambda>th. bad_stored (b_pc th)) (b_threads s)))"
  using count_keys [of "b_data s" "b_threads s" "\<lambda>th. bad_stored (b_pc th)"
      b_currentCounter] assms
  by (simp add: bad_data_inv_def bad_stats_def bad_keyed_def)

lemma bad_write_effect:
  assumes inv: "bad_data_inv s" and l: "bad_inv s" and t: "t < length (b_threads s)"
    and pc: "b_pc (b_threads s ! t) = B_Write"
  shows "b_data (bad_step (t, now) s) =
           AList.update (request_key (b_currentCounter (b_threads s ! t))) 499999500000 (b_data s)"
proof -
  have "b_result (b_threads s ! t) = 499999500000"
    using inv t pc by (simp add: bad_data_inv_def)
  moreover have "\<not> b_fatal s" using l by (simp add: bad_inv_def)
  ultimately show ?thesis
    using t pc by (simp add: bad_step_def BadHandler_def bad_set_def)
qed

lemma bad_other_steps:
  assumes "b_pc (b_threads s ! t) \<noteq> B_Write"
  shows "b_data (bad_step (t, now) s) = b_data s"
  using assms
  by (cases "b_pc (b_threads s ! t)"; cases "b_mu s")
    (simp_all add: bad_step_def BadHandler_def bad_set_def)

section \<open>The ids and the keys of the server with the deferred unlock\<close>

lemma bad_counter_step:
  "b_counter (bad_step e s) =
     (if \<not> b_fatal s \<and> fst e < length (b_threads s) \<and> b_pc (b_threads s ! fst e) = B_Incr
      then wrap64 (b_counter s + 1) else b_counter s)"
  by (cases e; cases "b_pc (b_threads s ! fst e)"; cases "b_mu s")
    (simp_all add: bad_step_def BadHandler_def bad_set_def split: prod.split)

lemma bad_id_step:
  "\<not> b_fatal s \<Longrightarrow> fst e < length (b_threads s) \<Longrightarrow> b_pc (b_threads s ! fst e) = B_Incr \<Longrightarrow>
   b_currentCounter (b_threads (bad_step e s) ! fst e) = wrap64 (b_counter s + 1)"
  by (cases e) (simp add: bad_step_def BadHandler_def bad_set_def)

lemma bad_ids_eq:
  "bad_ids es s =
     map (\<lambda>i. wrap64 (b_counter s + int i)) [1..<Suc (length (bad_ids es s))]"
proof (induction es arbitrary: s)
  case Nil
  then show ?case by simp
next
  case (Cons e es)
  let ?s = "bad_step e s"
  show ?case
  proof (cases "\<not> b_fatal s \<and> fst e < length (b_threads s) \<and> b_pc (b_threads s ! fst e) = B_Incr")
    case True
    have c: "b_counter ?s = wrap64 (b_counter s + 1)" using True by (simp add: bad_counter_step)
    have i: "b_currentCounter (b_threads ?s ! fst e) = wrap64 (b_counter s + 1)"
      using True by (simp add: bad_id_step)
    have "bad_ids es ?s =
        map (\<lambda>i. wrap64 (wrap64 (b_counter s + 1) + int i)) [1..<Suc (length (bad_ids es ?s))]"
      using Cons.IH [of ?s] unfolding c .
    then have "wrap64 (b_counter s + 1) # bad_ids es ?s =
        map (\<lambda>i. wrap64 (b_counter s + int i)) [1..<Suc (Suc (length (bad_ids es ?s)))]"
      by (rule ids_shape)
    moreover have "bad_ids (e # es) s = wrap64 (b_counter s + 1) # bad_ids es ?s"
      using True i by simp
    ultimately show ?thesis by (simp del: upt_Suc)
  next
    case False
    then have c: "b_counter ?s = b_counter s" by (auto simp add: bad_counter_step)
    have "bad_ids (e # es) s = bad_ids es ?s"
      using False by auto
    then show ?thesis using Cons.IH [of ?s] unfolding c by (simp del: upt_Suc)
  qed
qed

lemma bad_keys_handler: "fst ` set (b_data s) \<subseteq> fst ` set (b_data (BadHandler t now th s))"
  by (cases "b_pc th")
    (auto simp add: BadHandler_def bad_set_def dom_update split: option.split)

lemma bad_keys_step: "fst ` set (b_data s) \<subseteq> fst ` set (b_data (bad_step e s))"
  by (cases e) (simp add: bad_step_def bad_keys_handler)

lemma bad_keys_run: "fst ` set (b_data s) \<subseteq> fst ` set (b_data (bad_run es s))"
proof (induction es arbitrary: s)
  case Nil
  then show ?case by simp
next
  case (Cons e es)
  show ?case
    using bad_keys_step [of s e] Cons.IH [of "bad_step e s"] by simp
qed

lemma bad_run_append: "bad_run (es @ fs) s = bad_run fs (bad_run es s)"
  by (induction es arbitrary: s) simp_all

section \<open>Lemmas for the claims about the servers\<close>

lemma good_keys_mono:
  "fst ` set (g_maps (good_run sched (good_init n)) ! g_data (good_run sched (good_init n)))
     \<subseteq> fst ` set (g_maps (good_run (sched @ later) (good_init n)) !
                    g_data (good_run (sched @ later) (good_init n)))"
proof -
  have "good_inv (good_run sched (good_init n))"
    using good_reachable [of sched n] by (simp add: good_inv2_def)
  then have "good_extends (good_run sched (good_init n))
      (good_run later (good_run sched (good_init n)))"
    by (rule good_extends_run)
  then show ?thesis unfolding good_extends_def good_run_append by blast
qed

declare cpu_loop_result [code_unfold]

lemma good_snapshot_isolated:
  assumes s: "s = good_run sched (good_init n)" and t: "t < n"
    and snap: "good_has_snapshot (g_pc (g_threads s ! t))" and s': "s' = good_run later s"
  shows "g_dataCopy (g_threads s ! t) \<noteq> g_data s' \<and>
         (\<forall>p \<in> set (g_maps s' ! g_dataCopy (g_threads s ! t)).
            \<forall>q \<in> set (g_maps s' ! g_data s'). snd p \<noteq> snd q) \<and>
         good_has_snapshot (g_pc (g_threads s' ! t)) \<and>
         g_dataCopy (g_threads s' ! t) = g_dataCopy (g_threads s ! t) \<and>
         g_maps s' ! g_dataCopy (g_threads s ! t) = g_maps s ! g_dataCopy (g_threads s ! t) \<and>
         good_view s' (g_dataCopy (g_threads s ! t)) = good_view s (g_dataCopy (g_threads s ! t))"
proof -
  let ?d = "g_dataCopy (g_threads s ! t)"
  have inv: "good_inv s" using good_reachable [of sched n] by (simp add: s good_inv2_def)
  have inv': "good_inv s'" unfolding s' using inv by (rule good_inv_run)
  have h: "good_heap_inv s" and h': "good_heap_inv s'"
    using inv inv' by (simp_all add: good_inv_def)
  have len: "length (g_threads s) = n" by (simp add: s good_init_def)
  have d: "0 < ?d" "?d < length (g_maps s)"
    using h t snap len by (simp_all add: good_heap_inv_def)
  have z: "g_data s = 0" "g_data s' = 0" using h h' by (simp_all add: good_heap_inv_def)
  have ext: "good_extends s s'" unfolding s' using inv by (rule good_extends_run)
  have d': "?d < length (g_maps s')" using ext d(2) by (simp add: good_extends_def)
  have kept: "g_maps s' ! ?d = g_maps s ! ?d \<and> good_view s' ?d = good_view s ?d"
    using d z by (intro good_view_kept [OF ext h]) simp_all
  have thr: "good_has_snapshot (g_pc (g_threads s' ! t)) \<and> g_dataCopy (g_threads s' ! t) = ?d"
    unfolding s' using snap t len by (intro good_snapshot_kept_run) simp_all
  have dis: "\<forall>p \<in> set (g_maps s' ! ?d). \<forall>q \<in> set (g_maps s' ! g_data s'). snd p \<noteq> snd q"
    using h' d' d(1) z(2) by (simp add: good_heap_inv_def)
  show ?thesis using d(1) z(2) dis thr kept by simp
qed

lemma sync_snapshot_isolated:
  assumes s: "s = sync_run sched (sync_init n)" and t: "t < n"
    and snap: "sync_has_snapshot (s_pc (s_threads s ! t))" and s': "s' = sync_run later s"
  shows "(\<forall>p \<in> set (s_maps s' ! s_dataCopy (s_threads s ! t)).
            \<forall>q \<in> set (s_data s'). snd p \<noteq> snd q) \<and>
         sync_has_snapshot (s_pc (s_threads s' ! t)) \<and>
         s_dataCopy (s_threads s' ! t) = s_dataCopy (s_threads s ! t) \<and>
         s_maps s' ! s_dataCopy (s_threads s ! t) = s_maps s ! s_dataCopy (s_threads s ! t) \<and>
         sync_view s' (s_dataCopy (s_threads s ! t)) = sync_view s (s_dataCopy (s_threads s ! t))"
proof -
  let ?d = "s_dataCopy (s_threads s ! t)"
  have inv: "sync_inv s" using sync_reachable [of sched n] by (simp add: s sync_inv2_def)
  have inv': "sync_inv s'" unfolding s' using inv by (rule sync_inv_run)
  have h: "sync_heap_inv s" and h': "sync_heap_inv s'"
    using inv inv' by (simp_all add: sync_inv_def)
  have len: "length (s_threads s) = n" by (simp add: s sync_init_def)
  have fr: "sync_keeps ?d s s' \<and> sync_has_snapshot (s_pc (s_threads s' ! t)) \<and>
      s_dataCopy (s_threads s' ! t) = ?d"
    unfolding s' using inv t snap len by (intro sync_frame_run) simp_all
  have hm: "sync_has_map (s_pc (s_threads s ! t))" "sync_has_map (s_pc (s_threads s' ! t))"
    using snap fr by (simp_all add: sync_has_snapshot_def sync_has_map_def)
  have d: "?d < length (s_maps s)" using h t hm(1) len by (simp add: sync_heap_inv_def)
  have len': "length (s_threads s') = n" by (simp add: s' len)
  have "s_dataCopy (s_threads s' ! t) < length (s_maps s')"
    using h' t hm(2) len' by (simp add: sync_heap_inv_def)
  then have d': "?d < length (s_maps s')" using fr by simp
  have v: "sync_view s' ?d = sync_view s ?d"
    using fr h d by (intro sync_view_kept) simp_all
  have m: "s_maps s' ! ?d = s_maps s ! ?d" using fr by (simp add: sync_keeps_def)
  have dis: "\<forall>p \<in> set (s_maps s' ! ?d). \<forall>q \<in> set (s_data s'). snd p \<noteq> snd q"
    using h' d' by (simp add: sync_heap_inv_def)
  show ?thesis using dis fr v m by simp
qed

lemma good_out_step:
  assumes "g_out (good_step (t, now) s) \<noteq> g_out s"
  shows "\<not> g_fatal s \<and> t < length (g_threads s) \<and> g_pc (g_threads s ! t) = G_Encode"
proof -
  have a: "\<not> g_fatal s \<and> t < length (g_threads s)"
    using assms by (auto simp add: good_step_def split: if_splits)
  then have "g_out (GoodHandler t now (g_threads s ! t) s) \<noteq> g_out s"
    using assms by (simp add: good_step_def)
  then have "g_pc (g_threads s ! t) = G_Encode"
    by (cases "g_pc (g_threads s ! t)"; cases "g_mu s")
      (simp_all add: GoodHandler_def good_set_def split: prod.splits)
  then show ?thesis using a by simp
qed

lemma bad_out_step:
  assumes "b_out (bad_step (t, now) s) \<noteq> b_out s"
  shows "\<not> b_fatal s \<and> t < length (b_threads s) \<and> b_pc (b_threads s ! t) = B_Encode"
proof -
  have a: "\<not> b_fatal s \<and> t < length (b_threads s)"
    using assms by (auto simp add: bad_step_def split: if_splits)
  then have "b_out (BadHandler t now (b_threads s ! t) s) \<noteq> b_out s"
    using assms by (simp add: bad_step_def)
  then have "b_pc (b_threads s ! t) = B_Encode"
    by (cases "b_pc (b_threads s ! t)"; cases "b_mu s")
      (simp_all add: BadHandler_def bad_set_def)
  then show ?thesis using a by simp
qed

section \<open>Claims about the load generator\<close>

text \<open>
  Claim C6, as stated, fails for \<open>measureAverageLatency\<close>: before anything else it makes a
  channel with room for \<open>totalRequests\<close> durations, and \<open>make\<close> panics when that size is
  out of range. On linux/amd64 with 16 GiB of free memory, \<open>concurrency = 1\<close> and
  \<open>totalRequests = 2 ^ 45\<close> end in that panic: no goroutine is started and no request is
  issued.
\<close>

theorem oversized_channel_counterexample:
  "measureAverageLatency amd64_16GiB (\<lambda>u i j. Got None 5000000)
     ''http://localhost:8082/process'' 1 (2 ^ 45) = Inl MakeChanSizeOutOfRange"
  by (simp add: measureAverageLatency_def makechan_amd64_16GiB)

text \<open>
  Claim C6, amended. For every \<open>totalRequests \<ge> 0\<close> and \<open>concurrency \<ge> 1\<close> (within the
  range of a Go \<open>int\<close>): \<open>benchmarkServer\<close>, with \<open>b.N = totalRequests\<close>, starts
  \<open>concurrency\<close> goroutines and each of them issues exactly
  \<open>totalRequests div concurrency\<close> requests, so the number of requests issued is
  \<open>concurrency * (totalRequests div concurrency)\<close>, that is \<open>totalRequests\<close> less the
  remainder of the division, which no goroutine picks up. \<open>measureAverageLatency\<close> does
  the same whenever \<open>make(chan time.Duration, totalRequests)\<close> succeeds, and whenever it
  does not, the function ends there, in the panic or fatal error of \<open>make\<close>.
\<close>

theorem load_partition:
  assumes "0 \<le> totalRequests" "totalRequests < 2 ^ 63" "1 \<le> concurrency"
  shows "(makechan rt 8 totalRequests = None \<longrightarrow>
           (\<exists>r. measureAverageLatency rt net url concurrency totalRequests = Inr r \<and>
              length (workers r) = nat concurrency \<and>
              (\<forall>w \<in> set (workers r). issued w = nat (totalRequests div concurrency)) \<and>
              int (sum_list (map issued (workers r))) = concurrency * (totalRequests div concurrency) \<and>
              int (sum_list (map issued (workers r))) = totalRequests - totalRequests mod concurrency)) \<and>
         (\<forall>p. makechan rt 8 totalRequests = Some p \<longrightarrow>
            measureAverageLatency rt net url concurrency totalRequests = Inl p) \<and>
         (\<exists>ws. benchmarkServer net totalRequests url concurrency = Inr ws \<and>
            length ws = nat concurrency \<and>
            (\<forall>w \<in> set ws. issued w = nat (totalRequests div concurrency)) \<and>
            int (sum_list (map issued ws)) = concurrency * (totalRequests div concurrency) \<and>
            int (sum_list (map issued ws)) = totalRequests - totalRequests mod concurrency)"
proof -
  have rpg: "wrap64 (quo totalRequests concurrency) = totalRequests div concurrency"
    using assms by (rule rpg_eq)
  have q: "0 \<le> totalRequests div concurrency"
    using assms by (simp add: pos_imp_zdiv_nonneg_iff)
  have c: "concurrency \<noteq> 0" using assms by simp
  have m: "concurrency * (totalRequests div concurrency) = totalRequests - totalRequests mod concurrency"
    by (simp add: minus_mod_eq_mult_div)
  have len: "int (length [0..concurrency - 1]) = concurrency"
    using assms by simp
  have s: "int (sum_list (map (\<lambda>i. nat (totalRequests div concurrency)) [0..concurrency - 1]))
             = concurrency * (totalRequests div concurrency)"
    using q len by (simp add: sum_list_triv)
  have a: "makechan rt 8 totalRequests = None \<longrightarrow>
           (\<exists>r. measureAverageLatency rt net url concurrency totalRequests = Inr r \<and>
              length (workers r) = nat concurrency \<and>
              (\<forall>w \<in> set (workers r). issued w = nat (totalRequests div concurrency)) \<and>
              int (sum_list (map issued (workers r))) = concurrency * (totalRequests div concurrency) \<and>
              int (sum_list (map issued (workers r))) = totalRequests - totalRequests mod concurrency)"
  proof
    assume mk: "makechan rt 8 totalRequests = None"
    show "\<exists>r. measureAverageLatency rt net url concurrency totalRequests = Inr r \<and>
              length (workers r) = nat concurrency \<and>
              (\<forall>w \<in> set (workers r). issued w = nat (totalRequests div concurrency)) \<and>
              int (sum_list (map issued (workers r))) = concurrency * (totalRequests div concurrency) \<and>
              int (sum_list (map issued (workers r))) = totalRequests - totalRequests mod concurrency"
      using assms q s by (simp add: mal_workers [OF mk c] rpg comp_def m)
  qed
  have b: "\<forall>p. makechan rt 8 totalRequests = Some p \<longrightarrow>
            measureAverageLatency rt net url concurrency totalRequests = Inl p"
    by (simp add: mal_stops)
  have d: "\<exists>ws. benchmarkServer net totalRequests url concurrency = Inr ws \<and>
            length ws = nat concurrency \<and>
            (\<forall>w \<in> set ws. issued w = nat (totalRequests div concurrency)) \<and>
            int (sum_list (map issued ws)) = concurrency * (totalRequests div concurrency) \<and>
            int (sum_list (map issued ws)) = totalRequests - totalRequests mod concurrency"
    using assms q s by (simp add: bench_workers [OF c] rpg comp_def m)
  show ?thesis using a b d by (intro conjI)
qed

theorem load_partition_witness:
  "(0::int) \<le> 10 \<and> (10::int) < 2 ^ 63 \<and> (1::int) \<le> 3 \<and>
   makechan amd64_16GiB 8 10 = None \<and>
   makechan amd64_16GiB 8 (2 ^ 40) = Some OutOfMemory \<and>
   (\<exists>r. measureAverageLatency amd64_16GiB (\<lambda>u i j. Got None 5000000)
           ''http://localhost:8082/process'' 3 10 = Inr r \<and>
        length (workers r) = 3 \<and> list_all (\<lambda>w. issued w = 3) (workers r) \<and>
        int (sum_list (map issued (workers r))) = 9) \<and>
   measureAverageLatency amd64_16GiB (\<lambda>u i j. Got None 5000000)
     ''http://localhost:8082/process'' 3 (2 ^ 40) = Inl OutOfMemory \<and>
   (\<exists>ws. benchmarkServer (\<lambda>u i j. Got None 5000000) 10 ''http://localhost:8082/process'' 3 = Inr ws \<and>
        length ws = 3 \<and> list_all (\<lambda>w. issued w = 3) ws \<and>
        int (sum_list (map issued ws)) = 9)"
proof -
  have n: "makechan amd64_16GiB 8 10 = None"
    by (simp add: makechan_amd64_16GiB)
  have o: "makechan amd64_16GiB 8 (2 ^ 40) = Some OutOfMemory"
    by (simp add: makechan_amd64_16GiB)
  show ?thesis
    using n o
      load_partition [of 10 3 amd64_16GiB "\<lambda>u i j. Got None 5000000"
        "''http://localhost:8082/process''"]
      load_partition [of "2 ^ 40" 3 amd64_16GiB "\<lambda>u i j. Got None 5000000"
        "''http://localhost:8082/process''"]
    by (simp add: list_all_iff)
qed
text \<open>
  Claim C7. \<open>summarize\<close> over the empty sample set is 0, and the guard \<open>count == 0\<close> is
  what makes it so (lemma \<open>summarize_empty\<close>; the quotient \<open>0 / 0\<close> is NaN, lemma
  \<open>float64_div_zero_zero\<close>). Over a non-empty sample set the result is not the arithmetic
  mean that the claim and the function's own comment promise: the code divides
  \<open>totalLatency.Milliseconds()\<close>, the sum truncated to whole milliseconds, by the count
  (lemma \<open>summarize_quotient\<close>). One request that takes 1.5 ms has the average 1, not 1.5.
\<close>

theorem summarize_truncates_total:
  "measureAverageLatency amd64_16GiB (\<lambda>u i j. Got None 1500000)
     ''http://localhost:8082/process'' 1 1 =
     Inr \<lparr>workers = [\<lparr>issued = 1, sent = [1500000], logged = []\<rparr>], average = Fin 1\<rparr> \<and>
   summarize [1500000] = Fin 1 \<and>
   real_of_int (sum_list [1500000]) / 1000000 / real (length [1500000::int]) = 3 / 2"
proof -
  have m: "makechan amd64_16GiB 8 1 = None"
    by (simp add: makechan_amd64_16GiB)
  have q: "wrap64 (quo 1 1) = 1"
    by (simp add: wrap64_def quo_def)
  have r: "responded (\<lambda>j. Got None 1500000) 0 1 = [1500000]"
    by (simp add: responded_def upto.simps)
  have s: "summarize [1500000] = Fin 1"
    by code_simp
  show ?thesis
    by (simp add: mal_workers [OF m] q r s upto.simps)
qed




text \<open>
  Claim C9, as stated, fails: no input is checked. A negative \<open>concurrency\<close> and
  \<open>totalRequests = 0\<close> return the statistic 0 without a request and without an error,
  and \<open>concurrency = 0\<close> panics.
\<close>

theorem invalid_input_counterexample:
  "measureAverageLatency amd64_16GiB (\<lambda>u i j. Got None 1000000)
     ''http://localhost:8081/process'' (- 1) 100 = Inr \<lparr>workers = [], average = Fin 0\<rparr> \<and>
   measureAverageLatency amd64_16GiB (\<lambda>u i j. Got None 1000000)
     ''http://localhost:8081/process'' 2 0 = Inr \<lparr>workers = [worker0, worker0], average = Fin 0\<rparr> \<and>
   measureAverageLatency amd64_16GiB (\<lambda>u i j. Got None 1000000)
     ''http://localhost:8081/process'' 0 100 = Inl DivideByZero"
proof -
  have m: "makechan amd64_16GiB 8 100 = None" "makechan amd64_16GiB 8 0 = None"
    by (simp_all add: makechan_amd64_16GiB)
  have q: "wrap64 (quo 0 2) = 0"
    by (simp add: wrap64_def quo_def)
  have a: "measureAverageLatency amd64_16GiB (\<lambda>u i j. Got None 1000000)
     ''http://localhost:8081/process'' (- 1) 100 = Inr \<lparr>workers = [], average = Fin 0\<rparr>"
    by (simp add: mal_workers [OF m(1)] summarize_empty)
  have b: "measureAverageLatency amd64_16GiB (\<lambda>u i j. Got None 1000000)
     ''http://localhost:8081/process'' 2 0 = Inr \<lparr>workers = [worker0, worker0], average = Fin 0\<rparr>"
    by (simp add: mal_workers [OF m(2)] q responded_def summarize_empty worker0_def upto.simps)
  have c: "measureAverageLatency amd64_16GiB (\<lambda>u i j. Got None 1000000)
     ''http://localhost:8081/process'' 0 100 = Inl DivideByZero"
    by (simp add: measureAverageLatency_def m)
  show ?thesis using a b c by (intro conjI)
qed

text \<open>
  Claim C9, amended. No caller input is validated, and what happens follows the order of
  the statements. \<open>measureAverageLatency\<close> first makes the channel: when
  \<open>make(chan time.Duration, totalRequests)\<close> fails, which it does for every negative
  \<open>totalRequests\<close> with the panic \<open>makechan: size out of range\<close>, the function ends
  there, whatever the \<open>concurrency\<close>. When the channel has been made, \<open>concurrency = 0\<close>
  panics with an integer division by zero; a negative \<open>concurrency\<close> starts no goroutine
  and returns 0; and \<open>totalRequests = 0\<close> with a positive \<open>concurrency\<close> starts the
  goroutines, which issue no request, and returns 0. \<open>benchmarkServer\<close> panics with an
  integer division by zero when \<open>concurrency = 0\<close> and starts no goroutine when
  \<open>concurrency\<close> is negative.
\<close>

theorem invalid_input_unchecked:
  "(\<forall>p. makechan rt 8 totalRequests = Some p \<longrightarrow>
      measureAverageLatency rt net url concurrency totalRequests = Inl p) \<and>
   (totalRequests < 0 \<longrightarrow> makechan rt 8 totalRequests = Some MakeChanSizeOutOfRange) \<and>
   (makechan rt 8 totalRequests = None \<longrightarrow>
      measureAverageLatency rt net url 0 totalRequests = Inl DivideByZero) \<and>
   (makechan rt 8 totalRequests = None \<and> concurrency < 0 \<longrightarrow>
      measureAverageLatency rt net url concurrency totalRequests =
        Inr \<lparr>workers = [], average = Fin 0\<rparr>) \<and>
   (makechan rt 8 0 = None \<and> 0 < concurrency \<longrightarrow>
      measureAverageLatency rt net url concurrency 0 =
        Inr \<lparr>workers = map (\<lambda>i. worker0) [0..concurrency - 1], average = Fin 0\<rparr>) \<and>
   benchmarkServer net requests url 0 = Inl DivideByZero \<and>
   (concurrency < 0 \<longrightarrow> benchmarkServer net requests url concurrency = Inr [])"
proof -
  have e: "responded get 0 0 = []" for get
    by (simp add: responded_def)
  have z: "concat (map (\<lambda>i. []) ks) = []" for ks :: "int list"
    by (induction ks) simp_all
  have q: "wrap64 (quo 0 concurrency) = 0"
    by (simp add: quo_def wrap64_def)
  have a: "makechan rt 8 0 = None \<and> 0 < concurrency \<longrightarrow>
      measureAverageLatency rt net url concurrency 0 =
        Inr \<lparr>workers = map (\<lambda>i. worker0) [0..concurrency - 1], average = Fin 0\<rparr>"
    by (simp add: mal_workers q e z summarize_empty worker0_def)
  have b: "makechan rt 8 totalRequests = None \<and> concurrency < 0 \<longrightarrow>
      measureAverageLatency rt net url concurrency totalRequests =
        Inr \<lparr>workers = [], average = Fin 0\<rparr>"
    by (simp add: mal_workers summarize_empty)
  have c: "makechan rt 8 totalRequests = None \<longrightarrow>
      measureAverageLatency rt net url 0 totalRequests = Inl DivideByZero"
    by (simp add: measureAverageLatency_def)
  have d: "totalRequests < 0 \<longrightarrow> makechan rt 8 totalRequests = Some MakeChanSizeOutOfRange"
    by (simp add: makechan_def)
  have f: "concurrency < 0 \<longrightarrow> benchmarkServer net requests url concurrency = Inr []"
    by (simp add: bench_workers)
  have g: "benchmarkServer net requests url 0 = Inl DivideByZero"
    by (simp add: benchmarkServer_def)
  have h: "\<forall>p. makechan rt 8 totalRequests = Some p \<longrightarrow>
      measureAverageLatency rt net url concurrency totalRequests = Inl p"
    by (simp add: mal_stops)
  show ?thesis using a b c d f g h by (intro conjI)
qed

theorem invalid_input_unchecked_witness:
  "makechan amd64_16GiB 8 100 = None \<and> makechan amd64_16GiB 8 0 = None \<and>
   (- 1::int) < 0 \<and> (- 5::int) < 0 \<and> (0::int) < 2 \<and>
   makechan amd64_16GiB 8 (- 1) = Some MakeChanSizeOutOfRange \<and>
   measureAverageLatency amd64_16GiB (\<lambda>u i j. Got None 1000000)
     ''http://localhost:8081/process'' 0 (- 1) = Inl MakeChanSizeOutOfRange \<and>
   measureAverageLatency amd64_16GiB (\<lambda>u i j. Got None 1000000)
     ''http://localhost:8081/process'' 0 100 = Inl DivideByZero \<and>
   measureAverageLatency amd64_16GiB (\<lambda>u i j. Got None 1000000)
     ''http://localhost:8081/process'' (- 5) 100 = Inr \<lparr>workers = [], average = Fin 0\<rparr> \<and>
   measureAverageLatency amd64_16GiB (\<lambda>u i j. Got None 1000000)
     ''http://localhost:8081/process'' 2 0 = Inr \<lparr>workers = [worker0, worker0], average = Fin 0\<rparr> \<and>
   benchmarkServer (\<lambda>u i j. Got None 1000000) 100 ''http://localhost:8081/process'' 0
     = Inl DivideByZero \<and>
   benchmarkServer (\<lambda>u i j. Got None 1000000) 100 ''http://localhost:8081/process'' (- 5)
     = Inr []"
proof -
  have m: "makechan amd64_16GiB 8 100 = None"
    "makechan amd64_16GiB 8 0 = None"
    by (simp_all add: makechan_amd64_16GiB)
  show ?thesis
    using m
      invalid_input_unchecked [of amd64_16GiB 100 "\<lambda>u i j. Got None 1000000"
        "''http://localhost:8081/process''" "- 5" 100]
      invalid_input_unchecked [of amd64_16GiB 100 "\<lambda>u i j. Got None 1000000"
        "''http://localhost:8081/process''" 2 100]
      invalid_input_unchecked [of amd64_16GiB "- 1" "\<lambda>u i j. Got None 1000000"
        "''http://localhost:8081/process''" 0 100]
    by (simp add: upto.simps)
qed
section \<open>Claims about the servers\<close>

text \<open>
  Claim C3. In every state that \<open>n\<close> concurrent requests to \<open>BadHandler\<close> can reach,
  under any schedule: the mutex is held by a request exactly when that request is between
  its \<open>Lock\<close> (the first statement after reading the clock) and the deferred \<open>Unlock\<close>;
  a request that is about to allocate its id, copy the map, sleep, run the CPU loop or write
  its result holds the mutex; at most one request is inside the body; and the only step
  that takes the mutex away from its holder is the holder's own last step, the deferred
  \<open>Unlock\<close> with which the handler returns.
\<close>

theorem held_lock_exclusive:
  assumes "s = bad_run sched (bad_init n)"
  shows "\<not> b_fatal s \<and>
         (\<forall>t < n. bad_in_body (b_pc (b_threads s ! t)) = (b_mu s = Some t)) \<and>
         (\<forall>t < n. b_pc (b_threads s ! t) \<in> {B_Incr, B_Copy, B_Sleep, B_Cpu, B_Write} \<longrightarrow>
              b_mu s = Some t) \<and>
         (\<forall>t < n. \<forall>u < n. bad_in_body (b_pc (b_threads s ! t)) \<and>
              bad_in_body (b_pc (b_threads s ! u)) \<longrightarrow> t = u) \<and>
         (\<forall>t u now. b_mu s = Some t \<and> b_mu (bad_step (u, now) s) \<noteq> Some t \<longrightarrow>
              u = t \<and> b_pc (b_threads s ! t) = B_Unlock \<and>
              b_pc (b_threads (bad_step (u, now) s) ! t) = B_Done)"
proof -
  have inv: "bad_inv s"
    unfolding assms by (intro bad_inv_run bad_inv_init)
  have len: "length (b_threads s) = n"
    by (simp add: assms bad_init_def)
  have own: "\<And>t. t < n \<Longrightarrow> bad_in_body (b_pc (b_threads s ! t)) = (b_mu s = Some t)"
    using inv len by (simp add: bad_inv_def)
  have nf: "\<not> b_fatal s" using inv by (simp add: bad_inv_def)
  have a: "\<forall>t < n. b_pc (b_threads s ! t) \<in> {B_Incr, B_Copy, B_Sleep, B_Cpu, B_Write} \<longrightarrow>
              b_mu s = Some t"
  proof (intro allI impI)
    fix t assume "t < n" and "b_pc (b_threads s ! t) \<in> {B_Incr, B_Copy, B_Sleep, B_Cpu, B_Write}"
    then show "b_mu s = Some t" using own [of t] by (auto simp add: bad_in_body_def)
  qed
  have b: "\<forall>t < n. \<forall>u < n. bad_in_body (b_pc (b_threads s ! t)) \<and>
              bad_in_body (b_pc (b_threads s ! u)) \<longrightarrow> t = u"
    using own by auto
  have c: "\<forall>t u now. b_mu s = Some t \<and> b_mu (bad_step (u, now) s) \<noteq> Some t \<longrightarrow>
              u = t \<and> b_pc (b_threads s ! t) = B_Unlock \<and>
              b_pc (b_threads (bad_step (u, now) s) ! t) = B_Done"
    using bad_release [OF inv] by blast
  show ?thesis using nf own a b c by blast
qed

theorem held_lock_exclusive_witness:
  "b_mu (bad_run [(0, 0), (0, 1), (1, 2), (1, 3), (0, 4)] (bad_init 2)) = Some 0 \<and>
   b_pc (b_threads (bad_run [(0, 0), (0, 1), (1, 2), (1, 3), (0, 4)] (bad_init 2)) ! 0) = B_Copy \<and>
   b_pc (b_threads (bad_run [(0, 0), (0, 1), (1, 2), (1, 3), (0, 4)] (bad_init 2)) ! 1) = B_Lock \<and>
   \<not> bad_in_body (b_pc (b_threads (bad_run [(0, 0), (0, 1), (1, 2), (1, 3), (0, 4)] (bad_init 2)) ! 1))"
  using held_lock_exclusive [of "bad_run [(0, 0), (0, 1), (1, 2), (1, 3), (0, 4)] (bad_init 2)"
      "[(0, 0), (0, 1), (1, 2), (1, 3), (0, 4)]" 2]
  by (simp add: bad_init_def bad_thread0_def bad_step_def BadHandler_def bad_set_def
      eval_nat_numeral)

text \<open>
  Claim C1. In every run from a fresh \<open>Repository\<close>, under any schedule of any number of
  concurrent requests, the ids are strictly increasing in the order in which they are
  handed out, hence pairwise distinct: under the mutex held to the end (\<open>BadHandler\<close>),
  under the mutex of the first critical section (\<open>GoodHandler\<close>) and with
  \<open>atomic.AddInt64\<close> (\<open>SyncMapHandler\<close>). The counter has 64 bits, and this is stated
  of the runs that hand out fewer than \<open>2 ^ 63\<close> ids: each request that has taken an id
  holds a goroutine or has left a record in the map, from which nothing is deleted, so no
  machine comes near that number. Without any bound, a key of the repository's map stays
  a key of it in every later state.
\<close>

theorem ids_distinct_increasing:
  "(int (length (bad_ids sched0 (bad_init k))) < 2 ^ 63 \<longrightarrow>
      sorted_wrt (<) (bad_ids sched0 (bad_init k)) \<and> distinct (bad_ids sched0 (bad_init k))) \<and>
   (int (length (good_ids sched (good_init n))) < 2 ^ 63 \<longrightarrow>
      sorted_wrt (<) (good_ids sched (good_init n)) \<and> distinct (good_ids sched (good_init n))) \<and>
   (int (length (sync_ids sched' (sync_init m))) < 2 ^ 63 \<longrightarrow>
      sorted_wrt (<) (sync_ids sched' (sync_init m)) \<and> distinct (sync_ids sched' (sync_init m))) \<and>
   fst ` set (b_data (bad_run sched0 (bad_init k)))
     \<subseteq> fst ` set (b_data (bad_run (sched0 @ later0) (bad_init k))) \<and>
   fst ` set (g_maps (good_run sched (good_init n)) ! g_data (good_run sched (good_init n)))
     \<subseteq> fst ` set (g_maps (good_run (sched @ later) (good_init n)) !
                    g_data (good_run (sched @ later) (good_init n))) \<and>
   fst ` set (s_data (sync_run sched' (sync_init m)))
     \<subseteq> fst ` set (s_data (sync_run (sched' @ later') (sync_init m)))"
proof -
  have b: "bad_ids sched0 (bad_init k) =
      map (\<lambda>i. wrap64 (0 + int i)) [1..<Suc (length (bad_ids sched0 (bad_init k)))]"
    using bad_ids_eq [of sched0 "bad_init k"] by (simp add: bad_init_def del: upt_Suc)
  have g: "good_ids sched (good_init n) =
      map (\<lambda>i. wrap64 (0 + int i)) [1..<Suc (length (good_ids sched (good_init n)))]"
    using good_ids_eq [of sched "good_init n"] by (simp add: good_init_def del: upt_Suc)
  have y: "sync_ids sched' (sync_init m) =
      map (\<lambda>i. wrap64 (0 + int i)) [1..<Suc (length (sync_ids sched' (sync_init m)))]"
    using sync_ids_eq [of sched' "sync_init m"] by (simp add: sync_init_def del: upt_Suc)
  have kb: "fst ` set (b_data (bad_run sched0 (bad_init k)))
           \<subseteq> fst ` set (b_data (bad_run (sched0 @ later0) (bad_init k)))"
    using bad_keys_run [of "bad_run sched0 (bad_init k)" later0]
    by (simp add: bad_run_append)
  have ks: "fst ` set (s_data (sync_run sched' (sync_init m)))
           \<subseteq> fst ` set (s_data (sync_run (sched' @ later') (sync_init m)))"
    using sync_keys_run [of "sync_run sched' (sync_init m)" later']
    by (simp add: sync_run_append)
  show ?thesis
    using ids_increasing [OF b] ids_increasing [OF g] ids_increasing [OF y] good_keys_mono kb ks
    by blast
qed

theorem ids_distinct_increasing_witness:
  "int (length (bad_ids (steps 0 10 @ steps 1 3 @ steps 2 1) (bad_init 3))) < 2 ^ 63 \<and>
   int (length (good_ids (steps 0 5 @ steps 1 2 @ steps 0 8 @ steps 1 1) (good_init 2))) < 2 ^ 63 \<and>
   int (length (sync_ids (steps 0 1 @ steps 1 2 @ steps 0 1) (sync_init 2))) < 2 ^ 63 \<and>
   bad_ids (steps 0 10 @ steps 1 3 @ steps 2 1) (bad_init 3) = [1, 2] \<and>
   good_ids (steps 0 5 @ steps 1 2 @ steps 0 8 @ steps 1 1) (good_init 2) = [1, 2] \<and>
   sync_ids (steps 0 1 @ steps 1 2 @ steps 0 1) (sync_init 2) = [1, 2] \<and>
   sorted_wrt (<) (bad_ids (steps 0 10 @ steps 1 3 @ steps 2 1) (bad_init 3)) \<and>
   sorted_wrt (<) (good_ids (steps 0 5 @ steps 1 2 @ steps 0 8 @ steps 1 1) (good_init 2)) \<and>
   distinct (sync_ids (steps 0 1 @ steps 1 2 @ steps 0 1) (sync_init 2))"
proof -
  have b: "bad_ids (steps 0 10 @ steps 1 3 @ steps 2 1) (bad_init 3) = [1, 2]"
    by code_simp
  have g: "good_ids (steps 0 5 @ steps 1 2 @ steps 0 8 @ steps 1 1) (good_init 2) = [1, 2]"
    by code_simp
  have y: "sync_ids (steps 0 1 @ steps 1 2 @ steps 0 1) (sync_init 2) = [1, 2]"
    by code_simp
  have 0: "int (length (bad_ids (steps 0 10 @ steps 1 3 @ steps 2 1) (bad_init 3))) < 2 ^ 63"
    unfolding b by simp
  have 1: "int (length (good_ids (steps 0 5 @ steps 1 2 @ steps 0 8 @ steps 1 1) (good_init 2)))
      < 2 ^ 63"
    unfolding g by simp
  have 2: "int (length (sync_ids (steps 0 1 @ steps 1 2 @ steps 0 1) (sync_init 2))) < 2 ^ 63"
    unfolding y by simp
  show ?thesis
    using 0 1 2 b g y
      ids_distinct_increasing [of "steps 0 10 @ steps 1 3 @ steps 2 1" 3
        "steps 0 5 @ steps 1 2 @ steps 0 8 @ steps 1 1" 2
        "steps 0 1 @ steps 1 2 @ steps 0 1" 2]
    by blast
qed

text \<open>
  Claim C2. A snapshot that a handler has finished taking is a map of its own, other than
  the repository's, and none of its structs is referenced by the repository's map; in every
  later state, whatever steps this or any other handler takes in between, the handler still
  holds the same map, the map has the same entries, they point to structs with the same
  contents, and still none of them is referenced by the repository's map.
\<close>

theorem snapshot_isolated:
  assumes "s = good_run sched (good_init n)" and "t < n"
    and "good_has_snapshot (g_pc (g_threads s ! t))" and "s' = good_run later s"
    and "z = sync_run sched' (sync_init m)" and "u < m"
    and "sync_has_snapshot (s_pc (s_threads z ! u))" and "z' = sync_run later' z"
  shows "g_dataCopy (g_threads s ! t) \<noteq> g_data s' \<and>
         (\<forall>p \<in> set (g_maps s' ! g_dataCopy (g_threads s ! t)).
            \<forall>q \<in> set (g_maps s' ! g_data s'). snd p \<noteq> snd q) \<and>
         g_dataCopy (g_threads s' ! t) = g_dataCopy (g_threads s ! t) \<and>
         g_maps s' ! g_dataCopy (g_threads s ! t) = g_maps s ! g_dataCopy (g_threads s ! t) \<and>
         good_view s' (g_dataCopy (g_threads s ! t)) = good_view s (g_dataCopy (g_threads s ! t)) \<and>
         (\<forall>p \<in> set (s_maps z' ! s_dataCopy (s_threads z ! u)).
            \<forall>q \<in> set (s_data z'). snd p \<noteq> snd q) \<and>
         s_dataCopy (s_threads z' ! u) = s_dataCopy (s_threads z ! u) \<and>
         s_maps z' ! s_dataCopy (s_threads z ! u) = s_maps z ! s_dataCopy (s_threads z ! u) \<and>
         sync_view z' (s_dataCopy (s_threads z ! u)) = sync_view z (s_dataCopy (s_threads z ! u))"
  using good_snapshot_isolated [OF assms(1-4)] sync_snapshot_isolated [OF assms(5-8)]
  by blast

theorem snapshot_isolated_witness:
  "(1::nat) < 3 \<and>
   good_has_snapshot (g_pc (g_threads good_example ! 1)) \<and>
   sync_has_snapshot (s_pc (s_threads sync_example ! 1)) \<and>
   good_view good_example (g_dataCopy (g_threads good_example ! 1)) =
     [(''request_1'', \<lparr>Identifier = ''request_1'', Name = ''Request 1'', IsActive = True,
         Counter = 499999500000, LastModified = 9\<rparr>)] \<and>
   good_view (good_run (steps 2 13 @ steps 1 8) good_example)
       (g_dataCopy (g_threads good_example ! 1)) =
     good_view good_example (g_dataCopy (g_threads good_example ! 1)) \<and>
   map fst (g_maps (good_run (steps 2 13 @ steps 1 8) good_example) ! 0) =
     [''request_1'', ''request_3'', ''request_2''] \<and>
   sync_view sync_example (s_dataCopy (s_threads sync_example ! 1)) =
     [(''request_1'', \<lparr>Identifier = ''request_1'', Name = ''Request 1'', IsActive = True,
         Counter = 499999500000, LastModified = 8\<rparr>)] \<and>
   sync_view (sync_run (steps 2 10 @ steps 1 4) sync_example)
       (s_dataCopy (s_threads sync_example ! 1)) =
     sync_view sync_example (s_dataCopy (s_threads sync_example ! 1)) \<and>
   map fst (s_data (sync_run (steps 2 10 @ steps 1 4) sync_example)) =
     [''request_1'', ''request_3'', ''request_2'']"
proof -
  have g: "good_has_snapshot (g_pc (g_threads good_example ! 1))"
    by code_simp
  have y: "sync_has_snapshot (s_pc (s_threads sync_example ! 1))"
    by code_simp
  have gv: "good_view good_example (g_dataCopy (g_threads good_example ! 1)) =
     [(''request_1'', \<lparr>Identifier = ''request_1'', Name = ''Request 1'', IsActive = True,
         Counter = 499999500000, LastModified = 9\<rparr>)]"
    by code_simp
  have yv: "sync_view sync_example (s_dataCopy (s_threads sync_example ! 1)) =
     [(''request_1'', \<lparr>Identifier = ''request_1'', Name = ''Request 1'', IsActive = True,
         Counter = 499999500000, LastModified = 8\<rparr>)]"
    by code_simp
  have gk: "map fst (g_maps (good_run (steps 2 13 @ steps 1 8) good_example) ! 0) =
     [''request_1'', ''request_3'', ''request_2'']"
    by code_simp
  have yk: "map fst (s_data (sync_run (steps 2 10 @ steps 1 4) sync_example)) =
     [''request_1'', ''request_3'', ''request_2'']"
    by code_simp
  have n: "(1::nat) < 3" by simp
  show ?thesis
    using n g y gv yv gk yk
      snapshot_isolated [OF good_example_def n g refl sync_example_def n y refl,
        of "steps 2 13 @ steps 1 8" "steps 2 10 @ steps 1 4"]
    by blast
qed

text \<open>
  Claim C4, as stated, fails under the deferred unlock: \<open>BadHandler\<close> encodes the response
  into the \<open>ResponseWriter\<close> before the deferred \<open>Unlock\<close> runs, so the response is written
  while the handler holds the mutex.
\<close>

theorem response_written_under_lock_counterexample:
  "b_pc (b_threads bad_example ! 0) = B_Encode \<and>
   b_mu bad_example = Some 0 \<and>
   b_out bad_example = [] \<and>
   b_out (bad_step (0, 8) bad_example) =
     [(0, \<lparr>method_name = ''bad_defer'', counter = 1, result = 499999500000, duration = 0\<rparr>)] \<and>
   b_mu (bad_step (0, 8) bad_example) = Some 0"
  by code_simp

text \<open>
  Claim C4, amended. In \<open>GoodHandler\<close>, a step that writes to the client is the \<open>Encode\<close>
  statement and is taken by a goroutine that does not hold the mutex. In \<open>BadHandler\<close>, a
  step that writes to the client is the \<open>Encode\<close> statement too, and is always taken by the
  goroutine that holds the mutex. (\<open>SyncMapHandler\<close> has no lock.)
\<close>

theorem response_written_outside_lock:
  assumes "s = good_run sched (good_init n)" and "b = bad_run sched' (bad_init m)"
  shows "(\<forall>t now. g_out (good_step (t, now) s) \<noteq> g_out s \<longrightarrow>
            good_io (g_pc (g_threads s ! t)) \<and> g_mu s \<noteq> Some t) \<and>
         (\<forall>t now. b_out (bad_step (t, now) b) \<noteq> b_out b \<longrightarrow>
            bad_io (b_pc (b_threads b ! t)) \<and> b_mu b = Some t)"
proof -
  have g: "good_lock_inv s"
    using good_reachable [of sched n] by (simp add: assms good_inv2_def good_inv_def)
  have "bad_inv b"
    unfolding assms by (intro bad_inv_run bad_inv_init)
  then have b: "\<And>t. t < length (b_threads b) \<Longrightarrow>
      (b_mu b = Some t) = bad_in_body (b_pc (b_threads b ! t))"
    by (simp add: bad_inv_def)
  have 1: "good_io (g_pc (g_threads s ! t)) \<and> g_mu s \<noteq> Some t"
    if "g_out (good_step (t, now) s) \<noteq> g_out s" for t now
    using good_out_step [OF that] g by (simp add: good_lock_inv_def good_io_def)
  have 2: "bad_io (b_pc (b_threads b ! t)) \<and> b_mu b = Some t"
    if "b_out (bad_step (t, now) b) \<noteq> b_out b" for t now
    using bad_out_step [OF that] b [of t] by (simp add: bad_io_def)
  show ?thesis using 1 2 by blast
qed

theorem response_written_outside_lock_witness:
  "g_out (good_step (0, 12) (good_run (steps 0 12 @ steps 1 3) (good_init 2))) \<noteq>
     g_out (good_run (steps 0 12 @ steps 1 3) (good_init 2)) \<and>
   g_mu (good_run (steps 0 12 @ steps 1 3) (good_init 2)) = Some 1 \<and>
   g_mu (good_run (steps 0 12 @ steps 1 3) (good_init 2)) \<noteq> Some 0 \<and>
   b_out (bad_step (0, 8) bad_example) \<noteq> b_out bad_example \<and>
   b_mu bad_example = Some 0"
proof -
  have g: "g_out (good_step (0, 12) (good_run (steps 0 12 @ steps 1 3) (good_init 2))) \<noteq>
     g_out (good_run (steps 0 12 @ steps 1 3) (good_init 2))"
    by code_simp
  have m: "g_mu (good_run (steps 0 12 @ steps 1 3) (good_init 2)) = Some 1"
    by code_simp
  have b: "b_out (bad_step (0, 8) bad_example) \<noteq> b_out bad_example"
    by code_simp
  show ?thesis
    using g m b response_written_outside_lock [OF refl bad_example_def,
        of "steps 0 12 @ steps 1 3" 2]
    by blast
qed

text \<open>
  Claim C5. In every reachable state of each of the three servers: the step that writes the
  record of request \<open>t\<close> upserts the key \<open>request_<id>\<close> of the id of \<open>t\<close>, with the
  result of the CPU loop (499999500000) as the value, or as the \<open>Counter\<close> of a freshly
  allocated struct that no map referenced before; no other step of a handler changes the
  repository's map; and when the ids of the requests that have written are pairwise
  distinct, the \<open>data_size\<close> that \<open>StatsHandler\<close> reads is the number of those requests.
\<close>

theorem one_record_per_request:
  assumes "b = bad_run sched (bad_init n)" and "s = good_run sched' (good_init n')"
    and "z = sync_run sched'' (sync_init n'')"
  shows "(\<forall>t now. t < n \<and> b_pc (b_threads b ! t) = B_Write \<longrightarrow>
            b_data (bad_step (t, now) b) =
              AList.update (request_key (b_currentCounter (b_threads b ! t))) 499999500000
                (b_data b)) \<and>
         (\<forall>t now. b_pc (b_threads b ! t) \<noteq> B_Write \<longrightarrow> b_data (bad_step (t, now) b) = b_data b) \<and>
         (distinct (map b_currentCounter (filter (\<lambda>th. bad_stored (b_pc th)) (b_threads b))) \<longrightarrow>
            snd (bad_stats b) = int (length (filter (\<lambda>th. bad_stored (b_pc th)) (b_threads b)))) \<and>
         (\<forall>t now. t < n' \<and> g_pc (g_threads s ! t) = G_Store \<longrightarrow>
            g_structs (good_step (t, now) s) =
              g_structs s @
              [\<lparr>Identifier = request_key (g_currentCounter (g_threads s ! t)),
                Name = request_name (g_currentCounter (g_threads s ! t)), IsActive = True,
                Counter = 499999500000, LastModified = now\<rparr>] \<and>
            g_maps (good_step (t, now) s) =
              (g_maps s)[g_data s :=
                AList.update (request_key (g_currentCounter (g_threads s ! t)))
                  (length (g_structs s)) (g_maps s ! g_data s)] \<and>
            (\<forall>d < length (g_maps s). \<forall>p \<in> set (g_maps s ! d). snd p \<noteq> length (g_structs s))) \<and>
         (\<forall>t now. g_pc (g_threads s ! t) \<noteq> G_Store \<longrightarrow>
            g_maps (good_step (t, now) s) ! g_data s = g_maps s ! g_data s) \<and>
         (distinct (map g_currentCounter (filter (\<lambda>th. good_stored (g_pc th)) (g_threads s))) \<longrightarrow>
            snd (good_stats s) = int (length (filter (\<lambda>th. good_stored (g_pc th)) (g_threads s)))) \<and>
         (\<forall>t now. t < n'' \<and> s_pc (s_threads z ! t) = S_Store \<longrightarrow>
            s_structs (sync_step (t, now) z) =
              s_structs z @
              [\<lparr>Identifier = request_key (s_currentCounter (s_threads z ! t)),
                Name = request_name (s_currentCounter (s_threads z ! t)), IsActive = True,
                Counter = 499999500000, LastModified = now\<rparr>] \<and>
            s_data (sync_step (t, now) z) =
              AList.update (request_key (s_currentCounter (s_threads z ! t)))
                (length (s_structs z)) (s_data z) \<and>
            s_maps (sync_step (t, now) z) = s_maps z \<and>
            (\<forall>p \<in> set (s_data z). snd p \<noteq> length (s_structs z)) \<and>
            (\<forall>d < length (s_maps z). \<forall>p \<in> set (s_maps z ! d). snd p \<noteq> length (s_structs z))) \<and>
         (\<forall>t now. s_pc (s_threads z ! t) \<noteq> S_Store \<longrightarrow> s_data (sync_step (t, now) z) = s_data z) \<and>
         (distinct (map s_currentCounter (filter (\<lambda>th. sync_stored (s_pc th)) (s_threads z))) \<longrightarrow>
            snd (sync_stats z) = int (length (filter (\<lambda>th. sync_stored (s_pc th)) (s_threads z))))"
proof -
  have bi: "bad_inv b" unfolding assms by (intro bad_inv_run bad_inv_init)
  have bd: "bad_data_inv b" unfolding assms by (intro bad_data_run bad_data_init)
  have bl: "length (b_threads b) = n" by (simp add: assms bad_init_def)
  have gi: "good_inv s" "good_keys_inv s"
    using good_reachable [of sched' n'] by (simp_all add: assms good_inv2_def)
  have gl: "length (g_threads s) = n'" by (simp add: assms good_init_def)
  have gd: "g_data s < length (g_maps s)"
    using gi(1) by (simp add: good_inv_def good_heap_inv_def)
  have yi: "sync_inv z" "sync_keys_inv z"
    using sync_reachable [of sched'' n''] by (simp_all add: assms sync_inv2_def)
  have yl: "length (s_threads z) = n''" by (simp add: assms sync_init_def)
  show ?thesis
  proof (intro conjI allI impI)
    fix t now assume "t < n \<and> b_pc (b_threads b ! t) = B_Write"
    then show "b_data (bad_step (t, now) b) =
              AList.update (request_key (b_currentCounter (b_threads b ! t))) 499999500000
                (b_data b)"
      using bad_write_effect [OF bd bi, of t now] bl by simp
  next
    fix t now assume "b_pc (b_threads b ! t) \<noteq> B_Write"
    then show "b_data (bad_step (t, now) b) = b_data b" by (rule bad_other_steps)
  next
    assume "distinct (map b_currentCounter (filter (\<lambda>th. bad_stored (b_pc th)) (b_threads b)))"
    then show "snd (bad_stats b) = int (length (filter (\<lambda>th. bad_stored (b_pc th)) (b_threads b)))"
      by (rule bad_count [OF bd])
  next
    fix t now assume a: "t < n' \<and> g_pc (g_threads s ! t) = G_Store"
    then have e: "g_structs (good_step (t, now) s) =
           g_structs s @
           [\<lparr>Identifier = request_key (g_currentCounter (g_threads s ! t)),
             Name = request_name (g_currentCounter (g_threads s ! t)), IsActive = True,
             Counter = 499999500000, LastModified = now\<rparr>] \<and>
         g_maps (good_step (t, now) s) =
           (g_maps s)[g_data s :=
             AList.update (request_key (g_currentCounter (g_threads s ! t)))
               (length (g_structs s)) (g_maps s ! g_data s)] \<and>
         (\<forall>d < length (g_maps s). \<forall>p \<in> set (g_maps s ! d). snd p \<noteq> length (g_structs s))"
      using good_store_effect [OF gi(1), of t now] gl by simp
    show "g_structs (good_step (t, now) s) =
           g_structs s @
           [\<lparr>Identifier = request_key (g_currentCounter (g_threads s ! t)),
             Name = request_name (g_currentCounter (g_threads s ! t)), IsActive = True,
             Counter = 499999500000, LastModified = now\<rparr>]"
      using e by blast
    show "g_maps (good_step (t, now) s) =
           (g_maps s)[g_data s :=
             AList.update (request_key (g_currentCounter (g_threads s ! t)))
               (length (g_structs s)) (g_maps s ! g_data s)]"
      using e by blast
    fix d assume "d < length (g_maps s)"
    then show "\<forall>p \<in> set (g_maps s ! d). snd p \<noteq> length (g_structs s)"
      using e by blast
  next
    fix t now assume "g_pc (g_threads s ! t) \<noteq> G_Store"
    then show "g_maps (good_step (t, now) s) ! g_data s = g_maps s ! g_data s"
      using gd by (rule good_other_steps)
  next
    assume "distinct (map g_currentCounter (filter (\<lambda>th. good_stored (g_pc th)) (g_threads s)))"
    then show "snd (good_stats s) = int (length (filter (\<lambda>th. good_stored (g_pc th)) (g_threads s)))"
      by (rule good_count [OF gi(2)])
  next
    fix t now assume a: "t < n'' \<and> s_pc (s_threads z ! t) = S_Store"
    then have e: "s_structs (sync_step (t, now) z) =
           s_structs z @
           [\<lparr>Identifier = request_key (s_currentCounter (s_threads z ! t)),
             Name = request_name (s_currentCounter (s_threads z ! t)), IsActive = True,
             Counter = 499999500000, LastModified = now\<rparr>] \<and>
         s_data (sync_step (t, now) z) =
           AList.update (request_key (s_currentCounter (s_threads z ! t)))
             (length (s_structs z)) (s_data z) \<and>
         s_maps (sync_step (t, now) z) = s_maps z \<and>
         (\<forall>p \<in> set (s_data z). snd p \<noteq> length (s_structs z)) \<and>
         (\<forall>d < length (s_maps z). \<forall>p \<in> set (s_maps z ! d). snd p \<noteq> length (s_structs z))"
      using sync_store_effect [OF yi(1), of t now] yl by simp
    show "s_structs (sync_step (t, now) z) =
           s_structs z @
           [\<lparr>Identifier = request_key (s_currentCounter (s_threads z ! t)),
             Name = request_name (s_currentCounter (s_threads z ! t)), IsActive = True,
             Counter = 499999500000, LastModified = now\<rparr>]"
      using e by blast
    show "s_data (sync_step (t, now) z) =
           AList.update (request_key (s_currentCounter (s_threads z ! t)))
             (length (s_structs z)) (s_data z)"
      using e by blast
    show "s_maps (sync_step (t, now) z) = s_maps z" using e by blast
    show "\<forall>p \<in> set (s_data z). snd p \<noteq> length (s_structs z)" using e by blast
    fix d assume "d < length (s_maps z)"
    then show "\<forall>p \<in> set (s_maps z ! d). snd p \<noteq> length (s_structs z)"
      using e by blast
  next
    fix t now assume "s_pc (s_threads z ! t) \<noteq> S_Store"
    then show "s_data (sync_step (t, now) z) = s_data z" by (rule sync_other_steps)
  next
    assume "distinct (map s_currentCounter (filter (\<lambda>th. sync_stored (s_pc th)) (s_threads z)))"
    then show "snd (sync_stats z) = int (length (filter (\<lambda>th. sync_stored (s_pc th)) (s_threads z)))"
      by (rule sync_count [OF yi(2)])
  qed
qed

theorem one_record_per_request_witness:
  "(2::nat) < 3 \<and>
   b_pc (b_threads bad_before_write ! 2) = B_Write \<and>
   g_pc (g_threads good_before_write ! 2) = G_Store \<and>
   s_pc (s_threads sync_before_write ! 2) = S_Store \<and>
   distinct (map b_currentCounter (filter (\<lambda>th. bad_stored (b_pc th)) (b_threads bad_before_write))) \<and>
   distinct (map g_currentCounter (filter (\<lambda>th. good_stored (g_pc th)) (g_threads good_before_write))) \<and>
   distinct (map s_currentCounter (filter (\<lambda>th. sync_stored (s_pc th)) (s_threads sync_before_write))) \<and>
   snd (bad_stats bad_before_write) = 2 \<and>
   snd (good_stats good_before_write) = 2 \<and>
   snd (sync_stats sync_before_write) = 2 \<and>
   b_data (bad_step (2, 6) bad_before_write) =
     [(''request_1'', 499999500000), (''request_2'', 499999500000), (''request_3'', 499999500000)] \<and>
   g_maps (good_step (2, 9) good_before_write) ! g_data good_before_write =
     [(''request_1'', 0), (''request_2'', 2), (''request_3'', 5)] \<and>
   s_data (sync_step (2, 10) sync_before_write) =
     [(''request_1'', 0), (''request_2'', 2), (''request_3'', 5)]"
proof -
  have n: "(2::nat) < 3" by simp
  have pb: "b_pc (b_threads bad_before_write ! 2) = B_Write" by code_simp
  have pg: "g_pc (g_threads good_before_write ! 2) = G_Store" by code_simp
  have py: "s_pc (s_threads sync_before_write ! 2) = S_Store" by code_simp
  have db: "distinct (map b_currentCounter
      (filter (\<lambda>th. bad_stored (b_pc th)) (b_threads bad_before_write)))"
    by code_simp
  have dg: "distinct (map g_currentCounter
      (filter (\<lambda>th. good_stored (g_pc th)) (g_threads good_before_write)))"
    by code_simp
  have dy: "distinct (map s_currentCounter
      (filter (\<lambda>th. sync_stored (s_pc th)) (s_threads sync_before_write)))"
    by code_simp
  have lb: "length (filter (\<lambda>th. bad_stored (b_pc th)) (b_threads bad_before_write)) = 2"
    by code_simp
  have lg: "length (filter (\<lambda>th. good_stored (g_pc th)) (g_threads good_before_write)) = 2"
    by code_simp
  have ly: "length (filter (\<lambda>th. sync_stored (s_pc th)) (s_threads sync_before_write)) = 2"
    by code_simp
  have ub: "AList.update (request_key (b_currentCounter (b_threads bad_before_write ! 2)))
      499999500000 (b_data bad_before_write) =
     [(''request_1'', 499999500000), (''request_2'', 499999500000), (''request_3'', 499999500000)]"
    by code_simp
  have ug: "(g_maps good_before_write)[g_data good_before_write :=
        AList.update (request_key (g_currentCounter (g_threads good_before_write ! 2)))
          (length (g_structs good_before_write))
          (g_maps good_before_write ! g_data good_before_write)] ! g_data good_before_write =
     [(''request_1'', 0), (''request_2'', 2), (''request_3'', 5)]"
    by code_simp
  have uy: "AList.update (request_key (s_currentCounter (s_threads sync_before_write ! 2)))
        (length (s_structs sync_before_write)) (s_data sync_before_write) =
     [(''request_1'', 0), (''request_2'', 2), (''request_3'', 5)]"
    by code_simp
  note t = one_record_per_request [OF bad_before_write_def good_before_write_def
      sync_before_write_def]
  have sb: "snd (bad_stats bad_before_write) = 2" using t db lb by simp
  have sg: "snd (good_stats good_before_write) = 2" using t dg lg by simp
  have sy: "snd (sync_stats sync_before_write) = 2" using t dy ly by simp
  have wb: "b_data (bad_step (2, 6) bad_before_write) =
     [(''request_1'', 499999500000), (''request_2'', 499999500000), (''request_3'', 499999500000)]"
    using t n pb ub by simp
  have wg: "g_maps (good_step (2, 9) good_before_write) ! g_data good_before_write =
     [(''request_1'', 0), (''request_2'', 2), (''request_3'', 5)]"
    using t n pg ug by simp
  have wy: "s_data (sync_step (2, 10) sync_before_write) =
     [(''request_1'', 0), (''request_2'', 2), (''request_3'', 5)]"
    using t n py uy by simp
  show ?thesis
    using n pb pg py db dg dy sb sg sy wb wg wy by blast
qed

text \<open>
  Claim C10. In every reachable state of the servers of \<open>GoodHandler\<close> and
  \<open>SyncMapHandler\<close>, every record of the repository's map has its key as \<open>Identifier\<close>,
  the key is \<open>request_<id>\<close> and the \<open>Name\<close> is \<open>Request <id>\<close> for the same id, and
  \<open>IsActive\<close> is true.
\<close>

theorem stored_records_well_formed:
  assumes "s = good_run sched (good_init n)" and "z = sync_run sched' (sync_init m)"
  shows "(\<forall>p \<in> set (g_maps s ! g_data s).
            \<exists>c. fst p = request_key c \<and> Identifier (g_structs s ! snd p) = fst p \<and>
                Name (g_structs s ! snd p) = request_name c \<and> IsActive (g_structs s ! snd p)) \<and>
         (\<forall>p \<in> set (s_data z).
            \<exists>c. fst p = request_key c \<and> Identifier (s_structs z ! snd p) = fst p \<and>
                Name (s_structs z ! snd p) = request_name c \<and> IsActive (s_structs z ! snd p))"
proof -
  have "good_rec_inv s"
    using good_reachable [of sched n] by (simp add: assms good_inv2_def good_inv_def)
  then have g: "\<And>p. p \<in> set (g_maps s ! g_data s) \<Longrightarrow> record_ok (fst p) (g_structs s ! snd p)"
    by (simp add: good_rec_inv_def)
  have "sync_rec_inv z"
    using sync_reachable [of sched' m] by (simp add: assms sync_inv2_def sync_inv_def)
  then have y: "\<And>p. p \<in> set (s_data z) \<Longrightarrow> record_ok (fst p) (s_structs z ! snd p)"
    by (simp add: sync_rec_inv_def)
  have r: "\<And>k r. record_ok k r \<Longrightarrow>
      \<exists>c. k = request_key c \<and> Identifier r = k \<and> Name r = request_name c \<and> IsActive r"
    unfolding record_ok_def by blast
  show ?thesis using r [OF g] r [OF y] by blast
qed

theorem stored_records_well_formed_witness:
  "g_maps good_example ! g_data good_example = [(''request_1'', 0)] \<and>
   s_data sync_example = [(''request_1'', 0)] \<and>
   (\<exists>c. ''request_1'' = request_key c \<and>
        Identifier (g_structs good_example ! 0) = ''request_1'' \<and>
        Name (g_structs good_example ! 0) = request_name c \<and>
        IsActive (g_structs good_example ! 0)) \<and>
   (\<exists>c. ''request_1'' = request_key c \<and>
        Identifier (s_structs sync_example ! 0) = ''request_1'' \<and>
        Name (s_structs sync_example ! 0) = request_name c \<and>
        IsActive (s_structs sync_example ! 0))"
proof -
  have g: "g_maps good_example ! g_data good_example = [(''request_1'', 0)]"
    by code_simp
  have y: "s_data sync_example = [(''request_1'', 0)]"
    by code_simp
  show ?thesis
    using stored_records_well_formed [OF good_example_def sync_example_def] g y
    by simp
qed

end
